theory Spec2Isabelle
  imports Complex_Main "HOL-Library.AList" "HOL-Library.Log_Nat"
begin

section \<open>Python numbers\<close>

text \<open>
  The capacities of an edge list are whatever numbers it holds: Python integers, which
  are unbounded, or floats, which are IEEE doubles and include \<^verbatim>\<open>float('inf')\<close> (the
  unbounded capacity) and NaN (\<^verbatim>\<open>json.load\<close> reads both). All arithmetic of the
  engines is done on these numbers.

  A finite double is \<open>Dyadic m e\<close>, the number \<open>m * 2 ^ e\<close>, kept with \<open>m\<close> odd (or as
  \<open>Dyadic 0 0\<close>); the sign of a zero is not kept. \<open>round_dyadic m e\<close> is the double
  nearest to \<open>m * 2 ^ e\<close>, ties to the even mantissa, with 53 bits of mantissa, the
  smallest exponent \<open>- 1074\<close>, and an infinity from \<open>2 ^ 1024\<close> on. \<open>of_ratio n d\<close> is
  the double nearest to \<open>n / d\<close> for \<open>0 < d\<close>, which is how a decimal literal is read.
\<close>

datatype exn = NodeNotFound | NetworkXNoPath | KeyError | NetworkXError | OverflowError

datatype double = Dyadic int int | PosInf | NegInf | NaN

datatype pynum = PyInt int | PyFloat double

function normal :: "int \<Rightarrow> int \<Rightarrow> double" where
  "normal m e =
     (if m = 0 then Dyadic 0 0
      else if even m then normal (m div 2) (e + 1)
      else Dyadic m e)"
  by pat_completeness auto
termination
  by (relation "measure (\<lambda>(m, e). nat \<bar>m\<bar>)") (auto simp: abs_if)

declare normal.simps [simp del]

definition round_dyadic :: "int \<Rightarrow> int \<Rightarrow> double" where
  "round_dyadic m e =
     (let a = \<bar>m\<bar>;
          q = max (bitlen a + e - 53) (- 1074);
          k = q - e;
          a' = (if k \<le> 0 then a
                else let hi = a div 2 ^ nat k; lo = a mod 2 ^ nat k; half = 2 ^ nat (k - 1)
                     in if lo > half \<or> (lo = half \<and> odd hi) then hi + 1 else hi);
          e' = (if k \<le> 0 then e else q)
      in if bitlen a' + e' > 1024 then (if m < 0 then NegInf else PosInf)
         else normal (sgn m * a') e')"

definition of_ratio :: "int \<Rightarrow> int \<Rightarrow> double" where
  "of_ratio n d =
     (let a = \<bar>n\<bar>;
          s = max 0 (bitlen d - bitlen a + 55);
          q = (a * 2 ^ nat s) div d;
          r = (a * 2 ^ nat s) mod d
      in round_dyadic (sgn n * (2 * q + (if r = 0 then 0 else 1))) (- s - 1))"

fun double_neg :: "double \<Rightarrow> double" where
  "double_neg (Dyadic m e) = Dyadic (- m) e"
| "double_neg PosInf = NegInf"
| "double_neg NegInf = PosInf"
| "double_neg NaN = NaN"

fun double_add :: "double \<Rightarrow> double \<Rightarrow> double" where
  "double_add (Dyadic m1 e1) (Dyadic m2 e2) =
     (let e = min e1 e2 in round_dyadic (m1 * 2 ^ nat (e1 - e) + m2 * 2 ^ nat (e2 - e)) e)"
| "double_add NaN y = NaN"
| "double_add x NaN = NaN"
| "double_add PosInf NegInf = NaN"
| "double_add NegInf PosInf = NaN"
| "double_add PosInf y = PosInf"
| "double_add x PosInf = PosInf"
| "double_add NegInf y = NegInf"
| "double_add x NegInf = NegInf"

text \<open>Comparisons are exact, also between an integer and a float; with NaN they are false.\<close>

fun double_lt :: "double \<Rightarrow> double \<Rightarrow> bool" where
  "double_lt (Dyadic m1 e1) (Dyadic m2 e2) =
     (let e = min e1 e2 in m1 * 2 ^ nat (e1 - e) < m2 * 2 ^ nat (e2 - e))"
| "double_lt NaN y = False"
| "double_lt x NaN = False"
| "double_lt x NegInf = False"
| "double_lt PosInf y = False"
| "double_lt NegInf y = True"
| "double_lt x PosInf = True"

fun double_le :: "double \<Rightarrow> double \<Rightarrow> bool" where
  "double_le (Dyadic m1 e1) (Dyadic m2 e2) =
     (let e = min e1 e2 in m1 * 2 ^ nat (e1 - e) \<le> m2 * 2 ^ nat (e2 - e))"
| "double_le NaN y = False"
| "double_le x NaN = False"
| "double_le NegInf y = True"
| "double_le x PosInf = True"
| "double_le x NegInf = False"
| "double_le PosInf y = False"

text \<open>
  Arithmetic of an integer with a float converts the integer first, and the conversion
  raises \<^verbatim>\<open>OverflowError\<close> for an integer beyond the largest double.
\<close>

definition to_double :: "int \<Rightarrow> exn + double" where
  "to_double i =
     (case round_dyadic i 0 of
        PosInf \<Rightarrow> Inl OverflowError
      | NegInf \<Rightarrow> Inl OverflowError
      | x \<Rightarrow> Inr x)"

fun num_add :: "pynum \<Rightarrow> pynum \<Rightarrow> exn + pynum" where
  "num_add (PyInt a) (PyInt b) = Inr (PyInt (a + b))"
| "num_add (PyInt a) (PyFloat y) = map_sum id (\<lambda>x. PyFloat (double_add x y)) (to_double a)"
| "num_add (PyFloat x) (PyInt b) = map_sum id (\<lambda>y. PyFloat (double_add x y)) (to_double b)"
| "num_add (PyFloat x) (PyFloat y) = Inr (PyFloat (double_add x y))"

fun num_sub :: "pynum \<Rightarrow> pynum \<Rightarrow> exn + pynum" where
  "num_sub (PyInt a) (PyInt b) = Inr (PyInt (a - b))"
| "num_sub (PyInt a) (PyFloat y) =
     map_sum id (\<lambda>x. PyFloat (double_add x (double_neg y))) (to_double a)"
| "num_sub (PyFloat x) (PyInt b) =
     map_sum id (\<lambda>y. PyFloat (double_add x (double_neg y))) (to_double b)"
| "num_sub (PyFloat x) (PyFloat y) = Inr (PyFloat (double_add x (double_neg y)))"

fun num_lt :: "pynum \<Rightarrow> pynum \<Rightarrow> bool" where
  "num_lt (PyInt a) (PyInt b) = (a < b)"
| "num_lt (PyInt a) (PyFloat y) = double_lt (Dyadic a 0) y"
| "num_lt (PyFloat x) (PyInt b) = double_lt x (Dyadic b 0)"
| "num_lt (PyFloat x) (PyFloat y) = double_lt x y"

fun num_le :: "pynum \<Rightarrow> pynum \<Rightarrow> bool" where
  "num_le (PyInt a) (PyInt b) = (a \<le> b)"
| "num_le (PyInt a) (PyFloat y) = double_le (Dyadic a 0) y"
| "num_le (PyFloat x) (PyInt b) = double_le x (Dyadic b 0)"
| "num_le (PyFloat x) (PyFloat y) = double_le x y"

text \<open>
  \<^verbatim>\<open>min(a, b)\<close> and \<^verbatim>\<open>max(a, b)\<close> keep their first argument unless the second is
  strictly smaller, or strictly larger.
\<close>

definition py_min :: "pynum \<Rightarrow> pynum \<Rightarrow> pynum" where
  "py_min a b = (if num_lt b a then b else a)"

definition py_max :: "pynum \<Rightarrow> pynum \<Rightarrow> pynum" where
  "py_max a b = (if num_lt a b then b else a)"

section \<open>Graph model\<close>

text \<open>
  Both engines keep a \<^verbatim>\<open>networkx.DiGraph\<close> whose arcs carry the attributes
  \<^verbatim>\<open>capacity\<close> and \<^verbatim>\<open>flow\<close>. A DiGraph is a dictionary keyed by the ordered pair
  of end points, with insertion order kept, so it is an association list; storing
  under a key that exists replaces the attributes in place (\<open>AList.update\<close>), and the
  nodes of a graph that is only ever filled by \<^verbatim>\<open>add_edge\<close> are the end points of its
  arcs.
\<close>

type_synonym node = string

record edge =
  edge_u :: node
  edge_v :: node
  edge_capacity :: pynum

record attrs =
  capacity :: pynum
  flow :: pynum

type_synonym digraph = "((node \<times> node) \<times> attrs) list"

type_synonym rgraph = "((node \<times> node) \<times> pynum) list"

definition add_edge :: "('k \<times> 'a) list \<Rightarrow> 'k \<Rightarrow> 'a \<Rightarrow> ('k \<times> 'a) list" where
  "add_edge g k a = AList.update k a g"

definition has_edge :: "('k \<times> 'a) list \<Rightarrow> 'k \<Rightarrow> bool" where
  "has_edge g k = (map_of g k \<noteq> None)"

definition nodes_of :: "((node \<times> node) \<times> 'a) list \<Rightarrow> node list" where
  "nodes_of g = concat (map (\<lambda>((a, b), _). [a, b]) g)"

definition key :: "edge \<Rightarrow> node \<times> node" where
  "key e = (edge_u e, edge_v e)"

definition zero_arc :: attrs where
  "zero_arc = \<lparr>capacity = PyInt 0, flow = PyInt 0\<rparr>"

section \<open>Building the graph\<close>

text \<open>
  One iteration of the loop of \<^verbatim>\<open>build_graph\<close>, the same in both classes: store the
  declared arc with flow 0, then add the reverse arc with capacity 0 unless the graph
  has it.
\<close>

definition declare_edge :: "digraph \<Rightarrow> edge \<Rightarrow> digraph" where
  "declare_edge g e =
     (let g1 = add_edge g (edge_u e, edge_v e) \<lparr>capacity = edge_capacity e, flow = PyInt 0\<rparr>
      in if \<not> has_edge g1 (edge_v e, edge_u e)
         then add_edge g1 (edge_v e, edge_u e) \<lparr>capacity = PyInt 0, flow = PyInt 0\<rparr>
         else g1)"

text \<open>
  \<^verbatim>\<open>FordFulkerson\<close>: the graph and the running total (the field \<^verbatim>\<open>history\<close> is reset
  by \<^verbatim>\<open>build_graph\<close> and never read or written elsewhere; it is left out).
\<close>

record ff_state =
  ff_graph :: digraph
  ff_flow_val :: pynum

fun ff_add_edges :: "edge list \<Rightarrow> digraph \<Rightarrow> digraph" where
  "ff_add_edges [] g = g"
| "ff_add_edges (e # es) g = ff_add_edges es (declare_edge g e)"

definition ff_build_graph :: "edge list \<Rightarrow> ff_state" where
  "ff_build_graph es = \<lparr>ff_graph = ff_add_edges es [], ff_flow_val = PyInt 0\<rparr>"

text \<open>\<^verbatim>\<open>CapacityScaling\<close>: the graph and the threshold delta, which is always an integer.\<close>

record cs_state =
  cs_graph :: digraph
  cs_delta :: int

fun cs_add_edges :: "edge list \<Rightarrow> digraph \<times> pynum \<Rightarrow> digraph \<times> pynum" where
  "cs_add_edges [] gm = gm"
| "cs_add_edges (e # es) (g, max_cap) =
     cs_add_edges es (declare_edge g e, py_max max_cap (edge_capacity e))"

text \<open>
  The loop \<^verbatim>\<open>while self.delta * 2 <= max_cap: self.delta *= 2\<close>. It does not end when
  \<open>max_cap\<close> is \<^verbatim>\<open>float('inf')\<close>; not returning is the value \<open>None\<close>.
\<close>

partial_function (option) double_delta :: "int \<Rightarrow> pynum \<Rightarrow> int option" where
  "double_delta d max_cap =
     (if num_le (PyInt (d * 2)) max_cap then double_delta (d * 2) max_cap else Some d)"

declare double_delta.simps [code]

definition cs_build_graph :: "edge list \<Rightarrow> cs_state option" where
  "cs_build_graph es =
     (case cs_add_edges es ([], PyInt 0) of
        (g, max_cap) \<Rightarrow>
          map_option (\<lambda>d. \<lparr>cs_graph = g, cs_delta = d\<rparr>) (double_delta 1 max_cap))"

section \<open>Stepping\<close>

text \<open>
  The exceptions that can leave a call. \<^verbatim>\<open>nx.shortest_path\<close> raises \<^verbatim>\<open>NodeNotFound\<close>
  when the source or the target is not a node of the graph it is given, and
  \<^verbatim>\<open>NetworkXNoPath\<close> when both are nodes and the target cannot be reached;
  \<^verbatim>\<open>NodeNotFound\<close> is not a subclass of \<^verbatim>\<open>NetworkXNoPath\<close>. A subscript on a
  missing arc raises \<^verbatim>\<open>KeyError\<close>. \<^verbatim>\<open>nx.maximum_flow\<close> raises \<^verbatim>\<open>NetworkXError\<close>
  when the source or the sink is not a node of its graph. A call of \<^verbatim>\<open>step\<close> either
  raises or returns, and the state it leaves behind is kept in both cases.
\<close>

datatype 'a outcome = Raised exn | Returned 'a

text \<open>
  The residual graph keeps the arcs whose own \<open>capacity - flow\<close> passes a test:
  \<open>> 0\<close> in \<^verbatim>\<open>get_residual_graph\<close>, \<open>\<ge> delta\<close> in the scaling step. Its nodes are
  the end points of the arcs it keeps. The arcs stand here in the order of the graph's
  arc list; the library visits them grouped by their first node, which gives every
  node the same order of successors.
\<close>

fun residual_where :: "(pynum \<Rightarrow> bool) \<Rightarrow> digraph \<Rightarrow> exn + rgraph" where
  "residual_where P [] = Inr []"
| "residual_where P ((k, d) # g) =
     (case num_sub (capacity d) (flow d) of
        Inl e \<Rightarrow> Inl e
      | Inr residual \<Rightarrow>
          (case residual_where P g of
             Inl e \<Rightarrow> Inl e
           | Inr R \<Rightarrow> Inr (if P residual then (k, residual) # R else R)))"

definition get_residual_graph :: "digraph \<Rightarrow> exn + rgraph" where
  "get_residual_graph g = residual_where (\<lambda>residual. num_lt (PyInt 0) residual) g"

text \<open>
  Modelled from the spec: \<^verbatim>\<open>nx.shortest_path\<close> is library code and not part of the
  sources. Section 4.2 describes it: a breadth-first search from the source over the
  arcs of the graph it is given, returning the first path that reaches the target, or
  no path. The search below keeps, for every node in the queue, the path that led to
  it (\<open>trail\<close>, newest node first), and marks a node as seen when it is queued. Among
  several paths with the fewest hops the library's choice is not specified here.
\<close>

definition successors :: "rgraph \<Rightarrow> node \<Rightarrow> node list" where
  "successors R x = map (\<lambda>((a, b), _). b) (filter (\<lambda>((a, b), _). a = x) R)"

lemma successors_nodes: "set (successors R x) \<subseteq> set (nodes_of R)"
  by (auto simp: successors_def nodes_of_def)

function bfs :: "rgraph \<Rightarrow> node \<Rightarrow> node list \<Rightarrow> (node \<times> node list) list \<Rightarrow> node list option" where
  "bfs R t seen [] = None"
| "bfs R t seen ((x, trail) # queue) =
     (if x = t then Some (rev (x # trail))
      else let new = remdups (filter (\<lambda>y. y \<notin> set seen) (successors R x))
           in bfs R t (seen @ new) (queue @ map (\<lambda>y. (y, x # trail)) new))"
  by pat_completeness auto
termination
  apply (relation "measures [\<lambda>(R, t, seen, q). card (set (nodes_of R) - set seen),
                            \<lambda>(R, t, seen, q). length q]")
   apply simp
  subgoal for R t seen x trail queue new
  proof (cases "new = []")
    case True
    then show ?thesis by simp
  next
    case False
    assume new: "new = remdups (filter (\<lambda>y. y \<notin> set seen) (successors R x))"
    have sub: "set new \<subseteq> set (nodes_of R) - set seen"
      using successors_nodes [of R x] by (auto simp: new)
    from False obtain y where y: "y \<in> set new" by (cases new) auto
    have "set (nodes_of R) - set (seen @ new) \<subset> set (nodes_of R) - set seen"
      using sub y by auto
    then have "card (set (nodes_of R) - set (seen @ new)) < card (set (nodes_of R) - set seen)"
      by (intro psubset_card_mono) simp_all
    then show ?thesis by simp
  qed
  done

declare bfs.simps [simp del]

definition shortest_path :: "rgraph \<Rightarrow> node \<Rightarrow> node \<Rightarrow> exn + node list" where
  "shortest_path R source target =
     (if source \<notin> set (nodes_of R) \<or> target \<notin> set (nodes_of R) then Inl NodeNotFound
      else case bfs R target [source] [(source, [])] of
             None \<Rightarrow> Inl NetworkXNoPath
           | Some path \<Rightarrow> Inr path)"

text \<open>
  The two loops of \<^verbatim>\<open>step\<close> over the consecutive pairs of the path. The bottleneck
  starts from \<^verbatim>\<open>float('inf')\<close>. The augmentation stores \<open>flow + bottleneck\<close> in the arc
  \<open>(a, b)\<close> when the arc exists and \<open>capacity >= flow + bottleneck\<close>, and otherwise
  stores \<open>flow - bottleneck\<close> in the arc \<open>(b, a)\<close>.
\<close>

fun bottleneck :: "rgraph \<Rightarrow> node list \<Rightarrow> pynum \<Rightarrow> exn + pynum" where
  "bottleneck R (a # b # rest) acc =
     (case map_of R (a, b) of
        None \<Rightarrow> Inl KeyError
      | Some r \<Rightarrow> bottleneck R (b # rest) (py_min acc r))"
| "bottleneck R path acc = Inr acc"

definition set_flow :: "digraph \<Rightarrow> node \<times> node \<Rightarrow> pynum \<Rightarrow> digraph" where
  "set_flow g k x = AList.map_entry k (\<lambda>d. d\<lparr>flow := x\<rparr>) g"

definition forward_test :: "digraph \<Rightarrow> node \<Rightarrow> node \<Rightarrow> pynum \<Rightarrow> exn + bool" where
  "forward_test g a b n =
     (case map_of g (a, b) of
        None \<Rightarrow> Inr False
      | Some d \<Rightarrow> map_sum id (\<lambda>x. num_le x (capacity d)) (num_add (flow d) n))"

definition push_forward :: "digraph \<Rightarrow> node \<Rightarrow> node \<Rightarrow> pynum \<Rightarrow> exn + digraph" where
  "push_forward g a b n =
     (case map_of g (a, b) of
        None \<Rightarrow> Inl KeyError
      | Some d \<Rightarrow> map_sum id (set_flow g (a, b)) (num_add (flow d) n))"

definition push_back :: "digraph \<Rightarrow> node \<Rightarrow> node \<Rightarrow> pynum \<Rightarrow> exn + digraph" where
  "push_back g a b n =
     (case map_of g (b, a) of
        None \<Rightarrow> Inl KeyError
      | Some d \<Rightarrow> map_sum id (set_flow g (b, a)) (num_sub (flow d) n))"

definition push :: "digraph \<Rightarrow> node \<Rightarrow> node \<Rightarrow> pynum \<Rightarrow> exn + digraph" where
  "push g a b n =
     (case forward_test g a b n of
        Inl e \<Rightarrow> Inl e
      | Inr True \<Rightarrow> push_forward g a b n
      | Inr False \<Rightarrow> push_back g a b n)"

fun augment :: "digraph \<Rightarrow> node list \<Rightarrow> pynum \<Rightarrow> digraph \<times> exn option" where
  "augment g (a # b # rest) n =
     (case push g a b n of
        Inl e \<Rightarrow> (g, Some e)
      | Inr g' \<Rightarrow> augment g' (b # rest) n)"
| "augment g path n = (g, None)"

text \<open>
  \<^verbatim>\<open>FordFulkerson.step\<close>. Only \<^verbatim>\<open>NetworkXNoPath\<close> is caught. When the path has no arc
  (source and sink are the same node) the bottleneck stays \<^verbatim>\<open>float('inf')\<close> and the
  augmentation loop has no iteration.
\<close>

definition ff_step :: "node \<Rightarrow> node \<Rightarrow> ff_state \<Rightarrow> ff_state \<times> (node list option \<times> pynum) outcome" where
  "ff_step source sink s =
     (case get_residual_graph (ff_graph s) of
        Inl e \<Rightarrow> (s, Raised e)
      | Inr R \<Rightarrow>
          (case shortest_path R source sink of
             Inl NetworkXNoPath \<Rightarrow> (s, Returned (None, PyInt 0))
           | Inl e \<Rightarrow> (s, Raised e)
           | Inr path \<Rightarrow>
               (case bottleneck R path (PyFloat PosInf) of
                  Inl e \<Rightarrow> (s, Raised e)
                | Inr b \<Rightarrow>
                    (case augment (ff_graph s) path b of
                       (g, Some e) \<Rightarrow> (s\<lparr>ff_graph := g\<rparr>, Raised e)
                     | (g, None) \<Rightarrow>
                         (case num_add (ff_flow_val s) b of
                            Inl e \<Rightarrow> (s\<lparr>ff_graph := g\<rparr>, Raised e)
                          | Inr amount \<Rightarrow>
                              (\<lparr>ff_graph = g, ff_flow_val = amount\<rparr>,
                               Returned (Some path, b)))))))"

text \<open>Decimal rendering of an integer, as the f-strings of the messages do.\<close>

definition digit :: "nat \<Rightarrow> char" where
  "digit n = ''0123456789'' ! n"

function str_nat :: "nat \<Rightarrow> string" where
  "str_nat n = (if n < 10 then [digit n] else str_nat (n div 10) @ [digit (n mod 10)])"
  by pat_completeness auto
termination
  by (relation "measure id") auto

declare str_nat.simps [simp del]

definition str_int :: "int \<Rightarrow> string" where
  "str_int i = (if i < 0 then CHR ''-'' # str_nat (nat (- i)) else str_nat (nat i))"

text \<open>
  \<^verbatim>\<open>CapacityScaling.step\<close>. The path returned is \<open>None\<close> once delta is below 1, and the
  empty list \<open>Some []\<close> when no path is found at the current delta.
\<close>

definition cs_step :: "node \<Rightarrow> node \<Rightarrow> cs_state \<Rightarrow> cs_state \<times> (node list option \<times> pynum \<times> string) outcome" where
  "cs_step source sink s =
     (if cs_delta s < 1 then (s, Returned (None, PyInt 0, ''Algorithm Complete''))
      else
        case residual_where (\<lambda>residual. num_le (PyInt (cs_delta s)) residual) (cs_graph s) of
          Inl e \<Rightarrow> (s, Raised e)
        | Inr R_delta \<Rightarrow>
            (case shortest_path R_delta source sink of
               Inl NetworkXNoPath \<Rightarrow>
                 (s\<lparr>cs_delta := cs_delta s div 2\<rparr>,
                  Returned (Some [], PyInt 0,
                    ''No path at Delta='' @ str_int (cs_delta s) @ ''. Reducing Delta to ''
                      @ str_int (cs_delta s div 2)))
             | Inl e \<Rightarrow> (s, Raised e)
             | Inr path \<Rightarrow>
                 (case bottleneck R_delta path (PyFloat PosInf) of
                    Inl e \<Rightarrow> (s, Raised e)
                  | Inr b \<Rightarrow>
                      (case augment (cs_graph s) path b of
                         (g, Some e) \<Rightarrow> (s\<lparr>cs_graph := g\<rparr>, Raised e)
                       | (g, None) \<Rightarrow>
                           (s\<lparr>cs_graph := g\<rparr>,
                            Returned (Some path, b,
                              ''Augmented at Delta='' @ str_int (cs_delta s)))))))"

text \<open>An entry \<^verbatim>\<open>{'u': a, 'v': b, 'capacity': c}\<close> of an edge list.\<close>

definition mk_edge :: "node \<Rightarrow> node \<Rightarrow> pynum \<Rightarrow> edge" where
  "mk_edge a b c = \<lparr>edge_u = a, edge_v = b, edge_capacity = c\<rparr>"

section \<open>Auxiliary definitions for the statements\<close>

text \<open>The capacity of the last declaration of an arc in an edge list, if there is one.\<close>

fun last_cap :: "edge list \<Rightarrow> node \<times> node \<Rightarrow> pynum option" where
  "last_cap [] k = None"
| "last_cap (e # es) k =
     (case last_cap es k of Some c \<Rightarrow> Some c
      | None \<Rightarrow> if key e = k then Some (edge_capacity e) else None)"

text \<open>An edge list in which a reverse arc is declared after its forward arc.\<close>

definition ex_edges :: "edge list" where
  "ex_edges =
     [mk_edge ''A'' ''B'' (PyInt 5), mk_edge ''C'' ''D'' (PyInt 7), mk_edge ''B'' ''A'' (PyInt 3)]"

text \<open>
  A number is finite when it is an integer or a finite float; \<open>value_of\<close> is the
  rational number it stands for (every finite double is one).
\<close>

fun finite_num :: "pynum \<Rightarrow> bool" where
  "finite_num (PyInt i) = True"
| "finite_num (PyFloat (Dyadic m e)) = True"
| "finite_num (PyFloat x) = False"

fun value_of :: "pynum \<Rightarrow> rat" where
  "value_of (PyInt i) = of_int i"
| "value_of (PyFloat (Dyadic m e)) = of_int m * 2 powi e"
| "value_of (PyFloat x) = 0"

text \<open>An edge list with a negative capacity.\<close>

definition ex_neg_edges :: "edge list" where
  "ex_neg_edges = [mk_edge ''S'' ''A'' (PyInt 2), mk_edge ''A'' ''T'' (PyInt (- 1))]"

text \<open>An edge list with the capacities 10 and 6.5.\<close>

definition ex_caps :: "edge list" where
  "ex_caps = [mk_edge ''S'' ''A'' (PyInt 10), mk_edge ''A'' ''T'' (PyFloat (of_ratio 13 2))]"

section \<open>Auxiliary definitions for the proofs about stepping\<close>

text \<open>
  A walk of a graph is a node list whose consecutive pairs are arcs of the graph;
  \<open>arcs_of\<close> lists those pairs, as \<^verbatim>\<open>for i in range(len(path) - 1)\<close> visits them.
\<close>

fun walk :: "rgraph \<Rightarrow> node list \<Rightarrow> bool" where
  "walk R (a # b # rest) = (has_edge R (a, b) \<and> walk R (b # rest))"
| "walk R path = True"

definition arcs_of :: "node list \<Rightarrow> (node \<times> node) list" where
  "arcs_of p = zip p (tl p)"

text \<open>
  What the search keeps true of every queue entry: read backwards, node and trail are a
  walk from the source without a repeated node, and all its nodes are marked as seen.
\<close>

definition trail_ok :: "rgraph \<Rightarrow> node \<Rightarrow> node list \<Rightarrow> node \<times> node list \<Rightarrow> bool" where
  "trail_ok R s seen = (\<lambda>(x, trail). last (x # trail) = s \<and> walk R (rev (x # trail)) \<and>
      distinct (x # trail) \<and> set (x # trail) \<subseteq> set seen)"

text \<open>The integer held by a number that is a Python integer.\<close>

fun the_int :: "pynum \<Rightarrow> int" where
  "the_int (PyInt i) = i"
| "the_int (PyFloat x) = 0"

text \<open>
  The flow leaving and entering a node: the exact sums of the values of the flow
  fields of the arcs out of it and into it.
\<close>

definition outflow :: "digraph \<Rightarrow> node \<Rightarrow> rat" where
  "outflow g x = sum_list (map (\<lambda>(k, d). if fst k = x then value_of (flow d) else 0) g)"

definition inflow :: "digraph \<Rightarrow> node \<Rightarrow> rat" where
  "inflow g x = sum_list (map (\<lambda>(k, d). if snd k = x then value_of (flow d) else 0) g)"

text \<open>
  Capacity and flow are integers, and the flow lies between 0 and the capacity, or is
  0 where the capacity is negative.
\<close>

fun arc_ok :: "pynum \<Rightarrow> pynum \<Rightarrow> bool" where
  "arc_ok (PyInt c) (PyInt f) = (0 \<le> f \<and> f \<le> max 0 c)"
| "arc_ok c f = False"

definition flows_ok :: "digraph \<Rightarrow> bool" where
  "flows_ok g = list_all (\<lambda>(k, d). arc_ok (capacity d) (flow d)) g"

text \<open>
  The number of iterations of the augmentation loop that take the \<^verbatim>\<open>else\<close> branch
  (the decrement of the reverse arc); it follows \<open>augment\<close> step by step.
\<close>

fun reverse_pushes :: "digraph \<Rightarrow> node list \<Rightarrow> pynum \<Rightarrow> nat" where
  "reverse_pushes g (a # b # rest) n =
     (if forward_test g a b n = Inr False then 1 else 0) +
     (case push g a b n of
        Inl e \<Rightarrow> 0
      | Inr g' \<Rightarrow> reverse_pushes g' (b # rest) n)"
| "reverse_pushes g path n = 0"

text \<open>
  Every arc of the path is in the graph with integer capacity and flow, and can take
  \<open>n\<close> more units.
\<close>

definition room :: "digraph \<Rightarrow> node list \<Rightarrow> int \<Rightarrow> bool" where
  "room g p n =
     (\<forall>k \<in> set (arcs_of p). \<exists>c f. map_of g k = Some \<lparr>capacity = PyInt c, flow = PyInt f\<rparr> \<and> f + n \<le> c)"

text \<open>The attributes of an arc after \<open>n\<close> more units of flow.\<close>

definition add_int :: "int \<Rightarrow> attrs \<Rightarrow> attrs" where
  "add_int n d = d\<lparr>flow := PyInt (the_int (flow d) + n)\<rparr>"

text \<open>The invariant of a graph with integer capacities under stepping.\<close>

definition inv :: "digraph \<Rightarrow> bool" where
  "inv g = (distinct (map fst g) \<and> flows_ok g)"

text \<open>
  The state after \<open>j\<close> calls of \<^verbatim>\<open>step\<close>, whatever each call did (a call that raises
  leaves its state behind like one that returns).
\<close>

primrec ff_iterate :: "node \<Rightarrow> node \<Rightarrow> nat \<Rightarrow> ff_state \<Rightarrow> ff_state" where
  "ff_iterate source sink 0 s = s"
| "ff_iterate source sink (Suc j) s = fst (ff_step source sink (ff_iterate source sink j s))"

primrec cs_iterate :: "node \<Rightarrow> node \<Rightarrow> nat \<Rightarrow> cs_state \<Rightarrow> cs_state" where
  "cs_iterate source sink 0 s = s"
| "cs_iterate source sink (Suc j) s = fst (cs_step source sink (cs_iterate source sink j s))"

text \<open>The reverse pushes of the augmentation that the next call of \<^verbatim>\<open>step\<close> performs.\<close>

definition step_reverse_pushes :: "rgraph \<Rightarrow> digraph \<Rightarrow> node \<Rightarrow> node \<Rightarrow> nat" where
  "step_reverse_pushes R g source sink =
     (case shortest_path R source sink of
        Inl e \<Rightarrow> 0
      | Inr path \<Rightarrow>
          (case bottleneck R path (PyFloat PosInf) of
             Inl e \<Rightarrow> 0
           | Inr b \<Rightarrow> reverse_pushes g path b))"

definition ff_reverse_pushes :: "node \<Rightarrow> node \<Rightarrow> ff_state \<Rightarrow> nat" where
  "ff_reverse_pushes source sink s =
     (case get_residual_graph (ff_graph s) of
        Inl e \<Rightarrow> 0
      | Inr R \<Rightarrow> step_reverse_pushes R (ff_graph s) source sink)"

definition cs_reverse_pushes :: "node \<Rightarrow> node \<Rightarrow> cs_state \<Rightarrow> nat" where
  "cs_reverse_pushes source sink s =
     (if cs_delta s < 1 then 0
      else case residual_where (\<lambda>residual. num_le (PyInt (cs_delta s)) residual) (cs_graph s) of
             Inl e \<Rightarrow> 0
           | Inr R \<Rightarrow> step_reverse_pushes R (cs_graph s) source sink)"

text \<open>
  Conservation with the amount \<open>amount\<close> sent: the net outflow is \<open>amount\<close> at the
  source, \<open>- amount\<close> at the sink and 0 elsewhere.
\<close>

definition conserved :: "node \<Rightarrow> node \<Rightarrow> digraph \<Rightarrow> rat \<Rightarrow> bool" where
  "conserved source sink g amount =
     (\<forall>x. outflow g x - inflow g x =
        (if x = source then amount else 0) - (if x = sink then amount else 0))"

text \<open>
  The numbers that are Python integers, and the edge lists all of whose capacities are
  Python integers.
\<close>

fun is_int :: "pynum \<Rightarrow> bool" where
  "is_int (PyInt i) = True"
| "is_int (PyFloat x) = False"

definition int_capacities :: "edge list \<Rightarrow> bool" where
  "int_capacities es = list_all (\<lambda>e. is_int (edge_capacity e)) es"

text \<open>Example edge lists.\<close>

definition ex_line :: "edge list" where
  "ex_line = [mk_edge ''S'' ''A'' (PyInt 2), mk_edge ''A'' ''T'' (PyInt 1)]"

definition ex_single :: "edge list" where
  "ex_single = [mk_edge ''S'' ''T'' (PyInt 1)]"

definition ex_gap :: "edge list" where
  "ex_gap = [mk_edge ''S'' ''A'' (PyInt 1), mk_edge ''B'' ''T'' (PyInt 1)]"

definition ex_gap2 :: "edge list" where
  "ex_gap2 = [mk_edge ''S'' ''A'' (PyInt 2), mk_edge ''B'' ''T'' (PyInt 2)]"

definition ex_negative :: "edge list" where
  "ex_negative = [mk_edge ''S'' ''T'' (PyInt 1), mk_edge ''A'' ''B'' (PyInt (- 1))]"

text \<open>
  An edge list with the float capacities 0.3, 0.2 and 0.1 on three paths from \<open>S\<close> to
  \<open>T\<close> of 3, 4 and 5 arcs; the first and the third share the arc \<open>S \<rightarrow> A\<close>. Every
  shortest path met is the only one of its length.
\<close>

definition ex_float :: "edge list" where
  "ex_float =
     [mk_edge ''S'' ''A'' (PyInt 1), mk_edge ''A'' ''P'' (PyFloat (of_ratio 3 10)),
      mk_edge ''P'' ''T'' (PyInt 1),
      mk_edge ''S'' ''B'' (PyInt 1), mk_edge ''B'' ''Q1'' (PyFloat (of_ratio 2 10)),
      mk_edge ''Q1'' ''Q2'' (PyInt 1), mk_edge ''Q2'' ''T'' (PyInt 1),
      mk_edge ''A'' ''R1'' (PyFloat (of_ratio 1 10)), mk_edge ''R1'' ''R2'' (PyInt 1),
      mk_edge ''R2'' ''R3'' (PyInt 1), mk_edge ''R3'' ''T'' (PyInt 1)]"

text \<open>
  An edge list with the float capacities 0.9 and 0.3: the path \<open>S, A, B, T\<close> takes
  0.3, which leaves the arc \<open>S \<rightarrow> A\<close> the residual \<open>0.9 - 0.3\<close>, the double
  0.6000000000000001, and \<open>0.3 + 0.6000000000000001\<close> is the double 0.9000000000000001.
\<close>

definition ex_rounding :: "edge list" where
  "ex_rounding =
     [mk_edge ''S'' ''A'' (PyFloat (of_ratio 9 10)), mk_edge ''A'' ''B'' (PyFloat (of_ratio 3 10)),
      mk_edge ''B'' ''T'' (PyInt 1), mk_edge ''A'' ''C'' (PyInt 1), mk_edge ''C'' ''D'' (PyInt 1),
      mk_edge ''D'' ''T'' (PyInt 1)]"

text \<open>
  The state that \<^verbatim>\<open>CapacityScaling.build_graph\<close> returns for \<open>ex_gap2\<close>, the graph
  of its arcs with a residual of at least 2 (they are also those with a residual of at
  least 1), and the state that it returns for \<open>ex_gap\<close>.
\<close>

definition ex_gap2_built :: cs_state where
  "ex_gap2_built = \<lparr>cs_graph = ff_graph (ff_build_graph ex_gap2), cs_delta = 2\<rparr>"

definition ex_gap2_residual :: rgraph where
  "ex_gap2_residual = [((''S'', ''A''), PyInt 2), ((''B'', ''T''), PyInt 2)]"

definition ex_gap_built :: cs_state where
  "ex_gap_built = \<lparr>cs_graph = ff_graph (ff_build_graph ex_gap), cs_delta = 1\<rparr>"

section \<open>Running a stepper to its end\<close>

text \<open>
  Calling \<^verbatim>\<open>step()\<close> until it returns \<open>None\<close> as its path (the plain stepper's no-path
  signal, the scaling stepper's completion), adding up the bottlenecks returned. The
  run stops at the first exception; the fuel bounds the number of calls.
\<close>

fun ff_run :: "nat \<Rightarrow> ff_state \<Rightarrow> pynum \<Rightarrow> (exn + ff_state \<times> pynum) option" where
  "ff_run 0 s acc = None"
| "ff_run (Suc fuel) s acc =
     (case ff_step ''S'' ''T'' s of
        (s', Raised e) \<Rightarrow> Some (Inl e)
      | (s', Returned (None, b)) \<Rightarrow> Some (Inr (s', acc))
      | (s', Returned (Some path, b)) \<Rightarrow>
          (case num_add acc b of
             Inl e \<Rightarrow> Some (Inl e)
           | Inr acc' \<Rightarrow> ff_run fuel s' acc'))"

fun cs_run :: "nat \<Rightarrow> cs_state \<Rightarrow> pynum \<Rightarrow> (exn + cs_state \<times> pynum) option" where
  "cs_run 0 s acc = None"
| "cs_run (Suc fuel) s acc =
     (case cs_step ''S'' ''T'' s of
        (s', Raised e) \<Rightarrow> Some (Inl e)
      | (s', Returned (None, b, msg)) \<Rightarrow> Some (Inr (s', acc))
      | (s', Returned (Some path, b, msg)) \<Rightarrow>
          (case num_add acc b of
             Inl e \<Rightarrow> Some (Inl e)
           | Inr acc' \<Rightarrow> cs_run fuel s' acc'))"

text \<open>
  What a run from a freshly built graph pushed: the sum of the bottlenecks, the running
  total (plain stepper) and the flow on the arcs leaving \<^verbatim>\<open>'S'\<close>.
\<close>

definition ff_total :: "nat \<Rightarrow> edge list \<Rightarrow> (exn + pynum \<times> pynum \<times> rat) option" where
  "ff_total fuel es =
     map_option (map_sum id (\<lambda>(s, acc). (acc, ff_flow_val s, outflow (ff_graph s) ''S'')))
       (ff_run fuel (ff_build_graph es) (PyInt 0))"

definition cs_total :: "nat \<Rightarrow> edge list \<Rightarrow> (exn + pynum \<times> rat) option" where
  "cs_total fuel es =
     (case cs_build_graph es of
        None \<Rightarrow> None
      | Some c \<Rightarrow>
          map_option (map_sum id (\<lambda>(s, acc). (acc, outflow (cs_graph s) ''S'')))
            (cs_run fuel c (PyInt 0)))"

text \<open>
  An edge list on which the shortest path \<open>S, A, B, T\<close> uses the arc \<open>A \<rightarrow> B\<close> of
  capacity 1, while two longer paths of capacity 2 avoid it. The arcs \<open>S \<rightarrow> Z\<close> and
  \<open>W \<rightarrow> T\<close> lead nowhere and keep source and sink in every residual graph.
\<close>

definition ex_detour :: "edge list" where
  "ex_detour =
     [mk_edge ''S'' ''A'' (PyInt 2), mk_edge ''A'' ''B'' (PyInt 1), mk_edge ''B'' ''T'' (PyInt 2),
      mk_edge ''S'' ''X1'' (PyInt 2), mk_edge ''X1'' ''X2'' (PyInt 2), mk_edge ''X2'' ''B'' (PyInt 2),
      mk_edge ''A'' ''Y1'' (PyInt 2), mk_edge ''Y1'' ''Y2'' (PyInt 2), mk_edge ''Y2'' ''Y3'' (PyInt 2),
      mk_edge ''Y3'' ''T'' (PyInt 2),
      mk_edge ''S'' ''Z'' (PyInt 2), mk_edge ''W'' ''T'' (PyInt 2)]"

definition ex_detour_built :: cs_state where
  "ex_detour_built = \<lparr>cs_graph = ff_graph (ff_build_graph ex_detour), cs_delta = 2\<rparr>"

section \<open>Crew pairing\<close>

text \<open>
  \<^verbatim>\<open>solve_airline\<close>: a flight is a dictionary with the keys \<^verbatim>\<open>id\<close>, \<^verbatim>\<open>start\<close> and
  \<^verbatim>\<open>end\<close>; \<^verbatim>\<open>f1 == f2\<close> compares all three. The graph carries capacities only, and
  every capacity is the integer 1.
\<close>

type_synonym cgraph = "((node \<times> node) \<times> int) list"

record flight =
  flight_id :: string
  flight_start :: int
  flight_end :: int

definition in_node :: "flight \<Rightarrow> node" where
  "in_node f = flight_id f @ ''_in''"

definition out_node :: "flight \<Rightarrow> node" where
  "out_node f = flight_id f @ ''_out''"

definition add_terminals :: "flight \<Rightarrow> cgraph \<Rightarrow> cgraph" where
  "add_terminals f G = add_edge (add_edge G (''S'', in_node f) 1) (out_node f, ''T'') 1"

definition add_pair :: "flight \<Rightarrow> flight \<Rightarrow> cgraph \<Rightarrow> cgraph" where
  "add_pair f1 f2 G =
     (if f1 = f2 then G
      else if flight_end f1 \<le> flight_start f2 then add_edge G (in_node f1, out_node f2) 1
      else G)"

definition airline_graph :: "flight list \<Rightarrow> cgraph" where
  "airline_graph flights =
     fold (\<lambda>f1 G. fold (\<lambda>f2 G. add_pair f1 f2 G) flights G) flights
       (fold add_terminals flights [])"

text \<open>
  Modelled from the spec: \<^verbatim>\<open>nx.maximum_flow\<close> is library code and not part of the
  sources. It returns the value of a maximum flow from \<open>s\<close> to \<open>t\<close> (section 4.5 runs
  the engine to completion and reads its flow value), and raises \<^verbatim>\<open>NetworkXError\<close>
  when \<open>s\<close> or \<open>t\<close> is not a node of the graph or both are the same node. The value is
  computed here as the largest net outflow of \<open>s\<close> among the flows that give every arc
  an integer between 0 and its capacity and are conserved at every other node.
\<close>

fun all_flows :: "cgraph \<Rightarrow> ((node \<times> node) \<times> int) list list" where
  "all_flows [] = [[]]"
| "all_flows ((k, c) # G) =
     concat (map (\<lambda>x. map (\<lambda>f. (k, x) # f) (all_flows G)) [0..max 0 c])"

definition flow_out :: "((node \<times> node) \<times> int) list \<Rightarrow> node \<Rightarrow> int" where
  "flow_out f x = sum_list (map (\<lambda>(k, a). if fst k = x then a else 0) f)"

definition flow_in :: "((node \<times> node) \<times> int) list \<Rightarrow> node \<Rightarrow> int" where
  "flow_in f x = sum_list (map (\<lambda>(k, a). if snd k = x then a else 0) f)"

definition feasible :: "cgraph \<Rightarrow> node \<Rightarrow> node \<Rightarrow> ((node \<times> node) \<times> int) list \<Rightarrow> bool" where
  "feasible G s t f = list_all (\<lambda>x. x = s \<or> x = t \<or> flow_in f x = flow_out f x) (nodes_of G)"

definition maximum_flow :: "cgraph \<Rightarrow> node \<Rightarrow> node \<Rightarrow> exn + int" where
  "maximum_flow G s t =
     (if s \<notin> set (nodes_of G) \<or> t \<notin> set (nodes_of G) \<or> s = t then Inl NetworkXError
      else Inr (Max (set (map (\<lambda>f. flow_out f s - flow_in f s)
                      (filter (feasible G s t) (all_flows G))))))"

definition solve_airline :: "flight list \<Rightarrow> exn + int \<times> string" where
  "solve_airline flights =
     (let G = airline_graph flights; n = int (length flights) in
      case maximum_flow G ''S'' ''T'' of
        Inl e \<Rightarrow> Inl e
      | Inr flow_val \<Rightarrow>
          Inr (n - flow_val,
               ''Flights: '' @ str_int n @ '', Compatible Pairs Matched: '' @ str_int flow_val))"

definition ex_flights :: "flight list" where
  "ex_flights =
     [\<lparr>flight_id = ''A1'', flight_start = 0, flight_end = 4\<rparr>,
      \<lparr>flight_id = ''A2'', flight_start = 5, flight_end = 9\<rparr>,
      \<lparr>flight_id = ''B1'', flight_start = 2, flight_end = 6\<rparr>]"

text \<open>The arcs of the airline graph as lists of keys, for the proofs.\<close>

definition insert_arcs :: "(node \<times> node) list \<Rightarrow> cgraph \<Rightarrow> cgraph" where
  "insert_arcs ks G = fold (\<lambda>k G. add_edge G k 1) ks G"

definition terminal_arcs :: "flight list \<Rightarrow> (node \<times> node) list" where
  "terminal_arcs fl = concat (map (\<lambda>f. [(''S'', in_node f), (out_node f, ''T'')]) fl)"

definition pair_arcs :: "flight \<Rightarrow> flight list \<Rightarrow> (node \<times> node) list" where
  "pair_arcs f1 fl =
     concat (map (\<lambda>f2. if f1 \<noteq> f2 \<and> flight_end f1 \<le> flight_start f2
                         then [(in_node f1, out_node f2)] else []) fl)"

section \<open>Properties of build_graph\<close>

lemma declare_edge_fields:
  "map_of (declare_edge g \<lparr>edge_u = a, edge_v = b, edge_capacity = c\<rparr>) (x, y) =
     (if (x, y) = (a, b) then Some \<lparr>capacity = c, flow = PyInt 0\<rparr>
      else if (x, y) = (b, a) \<and> map_of g (x, y) = None then Some zero_arc
      else map_of g (x, y))"
proof (cases "a = b")
  case True
  then show ?thesis
    by (simp add: declare_edge_def add_edge_def has_edge_def Let_def update_conv')
next
  case False
  then show ?thesis
    by (auto simp add: declare_edge_def add_edge_def has_edge_def Let_def update_conv' zero_arc_def)
qed

lemma map_of_declare_edge:
  "map_of (declare_edge g e) k =
     (if k = key e then Some \<lparr>capacity = edge_capacity e, flow = PyInt 0\<rparr>
      else if k = (edge_v e, edge_u e) \<and> map_of g k = None then Some zero_arc
      else map_of g k)"
proof (cases e)
  case (fields a b c)
  obtain x y where k: "k = (x, y)" by (cases k)
  show ?thesis
    unfolding fields k key_def edge.select_convs by (rule declare_edge_fields)
qed

lemma distinct_declare_edge:
  "distinct (map fst g) \<Longrightarrow> distinct (map fst (declare_edge g e))"
  by (simp add: declare_edge_def add_edge_def Let_def distinct_update)

lemma distinct_ff_add_edges:
  "distinct (map fst g) \<Longrightarrow> distinct (map fst (ff_add_edges es g))"
  by (induction es arbitrary: g) (simp_all add: distinct_declare_edge)

lemma cs_add_edges_eq:
  "cs_add_edges es (g, m) = (ff_add_edges es g, fold (\<lambda>e m. py_max m (edge_capacity e)) es m)"
  by (induction es arbitrary: g m) simp_all

lemma declare_edge_same:
  "key e = k \<Longrightarrow> map_of (declare_edge g e) k = Some \<lparr>capacity = edge_capacity e, flow = PyInt 0\<rparr>"
  by (simp add: map_of_declare_edge)

lemma declare_edge_reverse:
  "key e \<noteq> (x, y) \<Longrightarrow> key e = (y, x) \<Longrightarrow> map_of g (x, y) = None
   \<Longrightarrow> map_of (declare_edge g e) (x, y) = Some zero_arc"
  by (simp add: map_of_declare_edge) (simp add: key_def)

lemma declare_edge_kept:
  "key e \<noteq> (x, y) \<Longrightarrow> map_of g (x, y) = Some d
   \<Longrightarrow> map_of (declare_edge g e) (x, y) = Some d"
  by (simp add: map_of_declare_edge)

lemma declare_edge_other:
  "key e \<noteq> (x, y) \<Longrightarrow> key e \<noteq> (y, x)
   \<Longrightarrow> map_of (declare_edge g e) (x, y) = map_of g (x, y)"
  by (simp add: map_of_declare_edge) (auto simp add: key_def)

lemma ff_add_edges_lookup:
  "map_of (ff_add_edges es g) (x, y) =
     (case last_cap es (x, y) of
        Some c \<Rightarrow> Some \<lparr>capacity = c, flow = PyInt 0\<rparr>
      | None \<Rightarrow> (case map_of g (x, y) of
           Some d \<Rightarrow> Some d
         | None \<Rightarrow> if (y, x) \<in> key ` set es then Some zero_arc else None))"
proof (induction es arbitrary: g)
  case Nil
  show ?case by (simp split: option.split)
next
  case (Cons e es)
  note ih = Cons.IH [of "declare_edge g e"]
  show ?case
  proof (cases "last_cap es (x, y)")
    case (Some c')
    then show ?thesis by (simp add: ih)
  next
    case None
    show ?thesis
    proof (cases "key e = (x, y)")
      case True
      then show ?thesis
        using None by (simp add: ih declare_edge_same)
    next
      case ne: False
      show ?thesis
      proof (cases "map_of g (x, y)")
        case (Some d)
        then show ?thesis
          using None ne by (simp add: ih declare_edge_kept)
      next
        case nog: None
        show ?thesis
        proof (cases "key e = (y, x)")
          case True
          then show ?thesis
            using None ne nog by (simp add: ih declare_edge_reverse)
        next
          case False
          then show ?thesis
            using None ne nog by (simp add: ih declare_edge_other)
        qed
      qed
    qed
  qed
qed

lemma last_cap_None: "(last_cap es k = None) = (k \<notin> key ` set es)"
  by (induction es) (auto split: option.split)

lemma last_cap_append:
  "last_cap (xs @ ys) k = (case last_cap ys k of Some c \<Rightarrow> Some c | None \<Rightarrow> last_cap xs k)"
  by (induction xs) (simp_all split: option.split)

lemma last_cap_decl:
  "key r \<notin> key ` set es2 \<Longrightarrow> last_cap (es1 @ r # es2) (key r) = Some (edge_capacity r)"
  using last_cap_None [of es2 "key r"] by (simp add: last_cap_append)

lemma build_lookup_declared:
  assumes "key r \<notin> key ` set es2"
  shows "map_of (ff_add_edges (es1 @ r # es2) []) (key r)
           = Some \<lparr>capacity = edge_capacity r, flow = PyInt 0\<rparr>"
proof -
  obtain x y where k: "key r = (x, y)" by (cases "key r")
  show ?thesis
    using last_cap_decl [OF assms, of es1] ff_add_edges_lookup [of "es1 @ r # es2" "[]" x y]
    by (simp add: k)
qed

lemma build_lookup_undeclared:
  assumes "(x, y) \<notin> key ` set es" "(y, x) \<in> key ` set es"
  shows "map_of (ff_add_edges es []) (x, y) = Some zero_arc"
  using assms last_cap_None [of es "(x, y)"] ff_add_edges_lookup [of es "[]" x y]
  by simp

lemma cs_graph_build:
  "cs_build_graph es = Some c \<Longrightarrow> cs_graph c = ff_graph (ff_build_graph es)"
  by (auto simp: cs_build_graph_def ff_build_graph_def cs_add_edges_eq)

lemma last_decl_exists:
  "k \<in> key ` set es \<Longrightarrow> \<exists>es1 r es2. es = es1 @ r # es2 \<and> key r = k \<and> k \<notin> key ` set es2"
proof (induction es rule: rev_induct)
  case Nil
  then show ?case by simp
next
  case (snoc e es)
  show ?case
  proof (cases "key e = k")
    case True
    then have "es @ [e] = es @ e # [] \<and> key e = k \<and> k \<notin> key ` set []" by simp
    then show ?thesis by blast
  next
    case False
    with snoc.prems have "k \<in> key ` set es" by auto
    from snoc.IH [OF this] obtain es1 r es2
      where "es = es1 @ r # es2" "key r = k" "k \<notin> key ` set es2" by blast
    then have "es @ [e] = es1 @ r # (es2 @ [e]) \<and> key r = k \<and> k \<notin> key ` set (es2 @ [e])"
      using False by auto
    then show ?thesis by blast
  qed
qed

text \<open>
  C9. After \<^verbatim>\<open>build_graph\<close> (of either class; for the scaling class also in the graph
  as the loop over the edges leaves it) the graph holds, for every declared arc
  \<open>(u, v)\<close>, the reverse arc \<open>(v, u)\<close> with flow 0. Its capacity is 0 when \<open>(v, u)\<close> is not
  declared anywhere in the list, and the capacity of the last declaration of \<open>(v, u)\<close>
  when it is declared, wherever that declaration stands in the list.
\<close>

theorem build_graph_reverse_arc:
  assumes "e \<in> set es"
    and "g = ff_graph (ff_build_graph es) \<or> g = fst (cs_add_edges es ([], PyInt 0)) \<or>
         (\<exists>c. cs_build_graph es = Some c \<and> g = cs_graph c)"
  shows "\<exists>d. map_of g (edge_v e, edge_u e) = Some d \<and> flow d = PyInt 0 \<and>
           ((edge_v e, edge_u e) \<notin> key ` set es \<longrightarrow> capacity d = PyInt 0) \<and>
           (\<forall>es1 r es2. es = es1 @ r # es2 \<and> key r = (edge_v e, edge_u e) \<and>
               key r \<notin> key ` set es2 \<longrightarrow> capacity d = edge_capacity r)"
proof -
  have g: "g = ff_add_edges es []"
    using assms(2) by (auto simp: cs_graph_build ff_build_graph_def cs_add_edges_eq)
  have fwd: "(edge_u e, edge_v e) \<in> key ` set es"
    using assms(1) by (auto simp: key_def)
  show ?thesis
  proof (cases "(edge_v e, edge_u e) \<in> key ` set es")
    case False
    then have "map_of g (edge_v e, edge_u e) = Some zero_arc"
      unfolding g using fwd by (rule build_lookup_undeclared)
    then show ?thesis using False by (auto simp: zero_arc_def)
  next
    case True
    from last_decl_exists [OF this] obtain es1 r es2
      where d: "es = es1 @ r # es2" "key r = (edge_v e, edge_u e)"
        "(edge_v e, edge_u e) \<notin> key ` set es2" by blast
    have look: "map_of g (edge_v e, edge_u e) = Some \<lparr>capacity = edge_capacity r, flow = PyInt 0\<rparr>"
      using build_lookup_declared [of r es2 es1] d by (simp add: g)
    have uniq: "capacity \<lparr>capacity = edge_capacity r, flow = PyInt 0\<rparr> = edge_capacity r'"
      if "es = es1' @ r' # es2'" "key r' = (edge_v e, edge_u e)" "key r' \<notin> key ` set es2'"
      for es1' r' es2'
    proof -
      have "map_of g (edge_v e, edge_u e) = Some \<lparr>capacity = edge_capacity r', flow = PyInt 0\<rparr>"
        using build_lookup_declared [of r' es2' es1'] that by (simp add: g)
      with look show ?thesis by simp
    qed
    show ?thesis using look True uniq by auto
  qed
qed

lemma ex_edges_cs_build:
  "cs_build_graph ex_edges =
     Some \<lparr>cs_graph = ff_graph (ff_build_graph ex_edges), cs_delta = 4\<rparr>"
  by code_simp

theorem build_graph_reverse_arc_witness:
  "(\<exists>d. map_of (ff_graph (ff_build_graph ex_edges)) (''B'', ''A'') = Some d \<and> flow d = PyInt 0 \<and>
      capacity d = PyInt 3) \<and>
   (\<exists>c d. cs_build_graph ex_edges = Some c \<and> map_of (cs_graph c) (''B'', ''A'') = Some d \<and>
      flow d = PyInt 0 \<and> capacity d = PyInt 3)"
proof -
  let ?e = "mk_edge ''A'' ''B'' (PyInt 5)"
  let ?r = "mk_edge ''B'' ''A'' (PyInt 3)"
  have a: "?e \<in> set ex_edges" by (simp add: ex_edges_def)
  have b: "ex_edges = [?e, mk_edge ''C'' ''D'' (PyInt 7)] @ ?r # []
      \<and> key ?r = (edge_v ?e, edge_u ?e) \<and> key ?r \<notin> key ` set []"
    by (simp add: ex_edges_def key_def mk_edge_def)
  have ev: "(edge_v ?e, edge_u ?e) = (''B'', ''A'')" "edge_capacity ?r = PyInt 3"
    by (simp_all add: mk_edge_def)
  from build_graph_reverse_arc [OF a disjI1 [OF refl]]
  obtain d where d: "map_of (ff_graph (ff_build_graph ex_edges)) (edge_v ?e, edge_u ?e) = Some d"
    "flow d = PyInt 0"
    "\<forall>es1 r es2. ex_edges = es1 @ r # es2 \<and> key r = (edge_v ?e, edge_u ?e) \<and>
               key r \<notin> key ` set es2 \<longrightarrow> capacity d = edge_capacity r"
    by blast
  from d(3) b have "capacity d = edge_capacity ?r" by blast
  with d(1,2) have 1: "\<exists>d. map_of (ff_graph (ff_build_graph ex_edges)) (''B'', ''A'') = Some d \<and>
      flow d = PyInt 0 \<and> capacity d = PyInt 3"
    unfolding ev by blast
  then show ?thesis by (simp add: ex_edges_cs_build)
qed

section \<open>The initial delta\<close>

lemma powi_add_nat: "(2::rat) powi (e + int n) = 2 powi e * 2 ^ n"
  by (simp add: power_int_add)

lemma powi_split: "e \<le> e1 \<Longrightarrow> (2::rat) powi e1 = 2 powi e * 2 ^ nat (e1 - e)"
  using powi_add_nat [of e "nat (e1 - e)"] by simp

lemma dyadic_align:
  "e \<le> e1 \<Longrightarrow> (of_int m :: rat) * 2 powi e1 = of_int (m * 2 ^ nat (e1 - e)) * 2 powi e"
  by (simp add: powi_split [of e e1])

lemma double_le_value:
  "double_le (Dyadic m1 e1) (Dyadic m2 e2) = ((of_int m1 :: rat) * 2 powi e1 \<le> of_int m2 * 2 powi e2)"
proof -
  let ?e = "min e1 e2"
  have p: "(0::rat) < 2 powi ?e" by simp
  have "((of_int m1 :: rat) * 2 powi e1 \<le> of_int m2 * 2 powi e2)
      = ((of_int (m1 * 2 ^ nat (e1 - ?e)) :: rat) * 2 powi ?e \<le> of_int (m2 * 2 ^ nat (e2 - ?e)) * 2 powi ?e)"
    by (simp only: dyadic_align [of ?e e1 m1, OF min.cobounded1] dyadic_align [of ?e e2 m2, OF min.cobounded2])
  also have "\<dots> = ((of_int (m1 * 2 ^ nat (e1 - ?e)) :: rat) \<le> of_int (m2 * 2 ^ nat (e2 - ?e)))"
    using p by (simp only: mult_le_cancel_right_pos)
  also have "\<dots> = (m1 * 2 ^ nat (e1 - ?e) \<le> m2 * 2 ^ nat (e2 - ?e))"
    by (simp only: of_int_le_iff)
  finally show ?thesis by (simp add: Let_def)
qed

lemma double_lt_value:
  "double_lt (Dyadic m1 e1) (Dyadic m2 e2) = ((of_int m1 :: rat) * 2 powi e1 < of_int m2 * 2 powi e2)"
proof -
  let ?e = "min e1 e2"
  have p: "(0::rat) < 2 powi ?e" by simp
  have "((of_int m1 :: rat) * 2 powi e1 < of_int m2 * 2 powi e2)
      = ((of_int (m1 * 2 ^ nat (e1 - ?e)) :: rat) * 2 powi ?e < of_int (m2 * 2 ^ nat (e2 - ?e)) * 2 powi ?e)"
    by (simp only: dyadic_align [of ?e e1 m1, OF min.cobounded1] dyadic_align [of ?e e2 m2, OF min.cobounded2])
  also have "\<dots> = ((of_int (m1 * 2 ^ nat (e1 - ?e)) :: rat) < of_int (m2 * 2 ^ nat (e2 - ?e)))"
    using p by (simp only: mult_less_cancel_right_pos)
  also have "\<dots> = (m1 * 2 ^ nat (e1 - ?e) < m2 * 2 ^ nat (e2 - ?e))"
    by (simp only: of_int_less_iff)
  finally show ?thesis by (simp add: Let_def)
qed

lemma finite_num_cases:
  "finite_num a \<Longrightarrow> (\<And>i. a = PyInt i \<Longrightarrow> P) \<Longrightarrow> (\<And>m e. a = PyFloat (Dyadic m e) \<Longrightarrow> P) \<Longrightarrow> P"
  by (cases a rule: finite_num.cases) simp_all

lemma num_le_value:
  "finite_num a \<Longrightarrow> finite_num b \<Longrightarrow> num_le a b = (value_of a \<le> value_of b)"
  by (erule finite_num_cases; erule finite_num_cases) (simp_all add: double_le_value del: double_le.simps(1))

lemma num_lt_value:
  "finite_num a \<Longrightarrow> finite_num b \<Longrightarrow> num_lt a b = (value_of a < value_of b)"
  by (erule finite_num_cases; erule finite_num_cases) (simp_all add: double_lt_value del: double_lt.simps(1))

lemma num_lt_skipped:
  "finite_num a \<Longrightarrow> \<not> finite_num c \<Longrightarrow> c \<noteq> PyFloat PosInf \<Longrightarrow> \<not> num_lt a c"
  by (erule finite_num_cases; cases c rule: finite_num.cases) simp_all

lemma py_max_finite:
  "finite_num a \<Longrightarrow> finite_num c \<Longrightarrow>
     finite_num (py_max a c) \<and> value_of (py_max a c) = max (value_of a) (value_of c)"
  by (simp add: py_max_def num_lt_value max_def)

lemma py_max_skipped:
  "finite_num a \<Longrightarrow> \<not> finite_num c \<Longrightarrow> c \<noteq> PyFloat PosInf \<Longrightarrow> py_max a c = a"
  by (simp add: py_max_def num_lt_skipped)

lemma Max_insert_max:
  "finite V \<Longrightarrow> Max (insert (max a b) V) = Max (insert a (insert b V))"
  for a b :: rat
  by (cases "V = {}") (simp_all add: max.assoc)

lemma fold_py_max:
  "finite_num m \<Longrightarrow> \<forall>e \<in> set es. edge_capacity e \<noteq> PyFloat PosInf \<Longrightarrow>
     finite_num (fold (\<lambda>e m. py_max m (edge_capacity e)) es m) \<and>
     value_of (fold (\<lambda>e m. py_max m (edge_capacity e)) es m) =
       Max (insert (value_of m) (value_of ` {x \<in> edge_capacity ` set es. finite_num x}))"
proof (induction es arbitrary: m)
  case Nil
  then show ?case by simp
next
  case (Cons e es)
  let ?V = "value_of ` {x \<in> edge_capacity ` set es. finite_num x}"
  have fin: "finite ?V" by simp
  show ?case
  proof (cases "finite_num (edge_capacity e)")
    case True
    from py_max_finite [OF Cons.prems(1) True]
    have pm: "finite_num (py_max m (edge_capacity e))"
      "value_of (py_max m (edge_capacity e)) = max (value_of m) (value_of (edge_capacity e))"
      by simp_all
    have set: "{x \<in> edge_capacity ` set (e # es). finite_num x}
        = insert (edge_capacity e) {x \<in> edge_capacity ` set es. finite_num x}"
      using True by auto
    have img: "value_of ` {x \<in> edge_capacity ` set (e # es). finite_num x}
        = insert (value_of (edge_capacity e)) ?V"
      by (simp only: set image_insert)
    have rest: "\<forall>e \<in> set es. edge_capacity e \<noteq> PyFloat PosInf"
      using Cons.prems(2) by simp
    from Cons.IH [OF pm(1) rest] show ?thesis
      unfolding img by (simp add: pm(2) Max_insert_max [OF fin] del: Max_insert)
  next
    case False
    have pm: "py_max m (edge_capacity e) = m"
      using Cons.prems False by (intro py_max_skipped) simp_all
    have set: "{x \<in> edge_capacity ` set (e # es). finite_num x}
        = {x \<in> edge_capacity ` set es. finite_num x}"
      using False by auto
    have rest: "\<forall>e \<in> set es. edge_capacity e \<noteq> PyFloat PosInf"
      using Cons.prems(2) by simp
    from Cons.IH [OF Cons.prems(1) rest] show ?thesis
      unfolding set by (simp add: pm)
  qed
qed

lemma double_delta_returns:
  "finite_num M \<Longrightarrow> 0 < d \<Longrightarrow>
     \<exists>r. double_delta d M = Some r \<and> (\<exists>k::nat. r = d * 2 ^ k) \<and>
         (of_int d \<le> value_of M \<longrightarrow> of_int r \<le> value_of M) \<and>
         value_of M < of_int (2 * r) \<and>
         (value_of M < of_int (2 * d) \<longrightarrow> r = d)"
proof (induction "nat (\<lfloor>value_of M\<rfloor> + 1 - d)" arbitrary: d rule: less_induct)
  case less
  have test: "num_le (PyInt (d * 2)) M = (of_int (d * 2) \<le> value_of M)"
    using less.prems(1) by (simp add: num_le_value)
  show ?case
  proof (cases "(of_int (d * 2) :: rat) \<le> value_of M")
    case False
    then have t: "\<not> num_le (PyInt (d * 2)) M" by (simp only: test not_False_eq_True)
    have 1: "double_delta d M = Some d"
      by (subst double_delta.simps) (simp only: t if_False)
    have 2: "\<exists>k::nat. d = d * 2 ^ k" by (rule exI [of _ 0]) simp
    have 3: "value_of M < of_int (2 * d)" using False by (simp add: mult.commute)
    show ?thesis using 1 2 3 by (intro exI [of _ d]) simp
  next
    case True
    then have fl: "d * 2 \<le> \<lfloor>value_of M\<rfloor>" by (simp add: le_floor_iff)
    have dec: "nat (\<lfloor>value_of M\<rfloor> + 1 - d * 2) < nat (\<lfloor>value_of M\<rfloor> + 1 - d)"
      using fl less.prems(2) by simp
    have pos: "0 < d * 2" using less.prems(2) by simp
    from less.hyps [OF dec less.prems(1) pos] obtain r k
      where r: "double_delta (d * 2) M = Some r" "r = d * 2 * 2 ^ (k::nat)"
        "of_int (d * 2) \<le> value_of M \<longrightarrow> of_int r \<le> value_of M"
        "value_of M < of_int (2 * r)"
      by blast
    have t: "num_le (PyInt (d * 2)) M" using True by (simp only: test)
    have 1: "double_delta d M = Some r"
      by (subst double_delta.simps) (simp only: t if_True r(1))
    have 2: "r = d * 2 ^ Suc k" using r(2) by simp
    have 3: "of_int r \<le> value_of M" using r(3) True by simp
    have 4: "\<not> value_of M < of_int (2 * d)" using True by (simp add: mult.commute)
    show ?thesis using 1 2 3 4 r(4) by blast
  qed
qed

lemma double_delta_inf: "double_delta d (PyFloat PosInf) = None"
proof (cases "double_delta d (PyFloat PosInf)")
  case None
  then show ?thesis .
next
  case (Some y)
  have "PyFloat PosInf \<noteq> PyFloat PosInf"
    by (rule double_delta.raw_induct [where P = "\<lambda>d m y. m \<noteq> PyFloat PosInf", OF _ Some])
      (auto split: if_splits)
  then show ?thesis by simp
qed

lemma py_max_inf:
  "a \<noteq> PyFloat NaN \<Longrightarrow> py_max a (PyFloat PosInf) = PyFloat PosInf"
  by (cases a rule: finite_num.cases) (simp_all add: py_max_def)

lemma py_max_not_nan:
  "a \<noteq> PyFloat NaN \<Longrightarrow> py_max a c \<noteq> PyFloat NaN"
  by (cases a rule: finite_num.cases; cases c rule: finite_num.cases) (simp_all add: py_max_def)

lemma py_max_keeps_inf: "py_max (PyFloat PosInf) c = PyFloat PosInf"
  by (cases c rule: finite_num.cases) (simp_all add: py_max_def)

lemma fold_py_max_keeps_inf:
  "fold (\<lambda>e m. py_max m (edge_capacity e)) es (PyFloat PosInf) = PyFloat PosInf"
  by (induction es) (simp_all add: py_max_keeps_inf)

lemma fold_py_max_inf:
  "m \<noteq> PyFloat NaN \<Longrightarrow> PyFloat PosInf \<in> edge_capacity ` set es \<Longrightarrow>
     fold (\<lambda>e m. py_max m (edge_capacity e)) es m = PyFloat PosInf"
proof (induction es arbitrary: m)
  case Nil
  then show ?case by simp
next
  case (Cons e es)
  show ?case
  proof (cases "edge_capacity e = PyFloat PosInf")
    case True
    then show ?thesis
      using Cons.prems(1) by (simp add: py_max_inf fold_py_max_keeps_inf)
  next
    case False
    with Cons.prems(2) have "PyFloat PosInf \<in> edge_capacity ` set es" by auto
    from Cons.IH [OF py_max_not_nan [OF Cons.prems(1)] this] show ?thesis by simp
  qed
qed

text \<open>
  \<^verbatim>\<open>CapacityScaling.build_graph\<close> returns when no declared capacity is
  \<^verbatim>\<open>float('inf')\<close>, and does not return when one is.
\<close>

lemma cs_build_graph_returns:
  assumes "\<forall>e \<in> set es. edge_capacity e \<noteq> PyFloat PosInf"
  shows "\<exists>d. cs_build_graph es = Some \<lparr>cs_graph = ff_graph (ff_build_graph es), cs_delta = d\<rparr>"
proof -
  from fold_py_max [of "PyInt 0" es] assms
  have "finite_num (fold (\<lambda>e m. py_max m (edge_capacity e)) es (PyInt 0))" by simp
  from double_delta_returns [OF this, of 1] obtain r
    where "double_delta 1 (fold (\<lambda>e m. py_max m (edge_capacity e)) es (PyInt 0)) = Some r"
    by auto
  then show ?thesis by (simp add: cs_build_graph_def cs_add_edges_eq ff_build_graph_def)
qed

lemma cs_build_graph_diverges:
  assumes "PyFloat PosInf \<in> edge_capacity ` set es"
  shows "cs_build_graph es = None"
  using fold_py_max_inf [OF _ assms, of "PyInt 0"]
  by (simp add: cs_build_graph_def cs_add_edges_eq double_delta_inf)

text \<open>
  C7. For an edge list without a capacity \<^verbatim>\<open>float('inf')\<close>, \<^verbatim>\<open>build_graph\<close> returns
  and delta is a power of two. Let \<open>V\<close> be the values of the declared capacities that
  are integers or finite floats (a capacity NaN or \<^verbatim>\<open>float('-inf')\<close> never becomes
  \<^verbatim>\<open>max_cap\<close>). When the largest of them is at least 1, delta is the largest power of
  two that does not exceed it. When it is below 1 (0 or negative), or there is none,
  delta is 1, which exceeds it.
\<close>

theorem initial_delta:
  assumes "\<forall>e \<in> set es. edge_capacity e \<noteq> PyFloat PosInf"
    and "V = value_of ` {x \<in> edge_capacity ` set es. finite_num x}"
  shows "\<exists>c. cs_build_graph es = Some c \<and>
           (\<exists>k::nat. cs_delta c = 2 ^ k) \<and>
           (V \<noteq> {} \<and> 1 \<le> Max V \<longrightarrow>
              of_int (cs_delta c) \<le> Max V \<and>
              (\<forall>j::nat. 2 ^ j \<le> Max V \<longrightarrow> 2 ^ j \<le> cs_delta c)) \<and>
           (V = {} \<or> Max V < 1 \<longrightarrow> cs_delta c = 1)"
proof -
  let ?m = "fold (\<lambda>e m. py_max m (edge_capacity e)) es (PyInt 0)"
  have finV: "finite V" by (simp add: assms(2))
  from fold_py_max [of "PyInt 0" es] assms
  have m: "finite_num ?m" "value_of ?m = Max (insert 0 V)" by simp_all
  have "0 < (1::int)" by simp
  from double_delta_returns [OF m(1) this] obtain r
    where r0: "double_delta 1 ?m = Some r \<and> (\<exists>k::nat. r = 1 * 2 ^ k) \<and>
         (of_int 1 \<le> value_of ?m \<longrightarrow> of_int r \<le> value_of ?m) \<and>
         value_of ?m < of_int (2 * r) \<and>
         (value_of ?m < of_int (2 * 1) \<longrightarrow> r = 1)"
    by blast
  then obtain k :: nat where k: "r = 2 ^ k" by auto
  have r: "double_delta 1 ?m = Some r" "r = 2 ^ k"
      "1 \<le> value_of ?m \<longrightarrow> of_int r \<le> value_of ?m"
      "value_of ?m < of_int (2 * r)"
      "value_of ?m < 2 \<longrightarrow> r = 1"
    using r0 k by simp_all
  let ?c = "\<lparr>cs_graph = ff_add_edges es [], cs_delta = r\<rparr>"
  have c: "cs_build_graph es = Some ?c"
    by (simp add: cs_build_graph_def cs_add_edges_eq r(1))
  have small: "r = 1" if "V = {} \<or> Max V < 1"
  proof -
    from that have "Max (insert 0 V) < 2"
      using finV by (cases "V = {}") auto
    with r(5) show ?thesis by (simp add: m(2))
  qed
  have large: "of_int r \<le> Max V \<and> (\<forall>j::nat. 2 ^ j \<le> Max V \<longrightarrow> 2 ^ j \<le> r)"
    if "V \<noteq> {} \<and> 1 \<le> Max V"
  proof -
    from that have M: "Max (insert 0 V) = Max V"
      using finV by (simp add: max_def)
    from r(3,4) that have b: "of_int r \<le> Max V" "Max V < of_int (2 * r)"
      by (simp_all add: m(2) M)
    have "2 ^ j \<le> r" if j: "2 ^ j \<le> Max V" for j :: nat
    proof -
      from j b(2) have "(2::rat) ^ j < of_int (2 * r)" by simp
      also have "\<dots> = 2 ^ Suc k" by (simp add: r(2))
      finally have "j < Suc k" by (simp only: power_strict_increasing_iff [of "2::rat"])
      then have "j \<le> k" by simp
      then show ?thesis unfolding r(2) by (simp add: power_increasing)
    qed
    with b(1) show ?thesis by blast
  qed
  have pow: "\<exists>k::nat. cs_delta ?c = 2 ^ k" using r(2) by auto
  show ?thesis
    using c pow small large by (intro exI [of _ ?c]) simp
qed

lemma ex_caps_values:
  "value_of ` {x \<in> edge_capacity ` set ex_caps. finite_num x} = {10, 13 / 2}"
proof -
  have r: "of_ratio 13 2 = Dyadic 13 (- 1)" by code_simp
  have "{x \<in> edge_capacity ` set ex_caps. finite_num x} = {PyInt 10, PyFloat (Dyadic 13 (- 1))}"
    by (auto simp: ex_caps_def mk_edge_def r)
  then show ?thesis by (simp add: power_int_minus)
qed

theorem initial_delta_witness:
  "\<exists>c. cs_build_graph ex_caps = Some c \<and> cs_delta c = 8 \<and>
       Max (value_of ` {x \<in> edge_capacity ` set ex_caps. finite_num x}) = 10"
proof -
  have inf: "\<forall>e \<in> set ex_caps. edge_capacity e \<noteq> PyFloat PosInf"
    by (simp add: ex_caps_def mk_edge_def) code_simp
  have b: "cs_build_graph ex_caps = Some \<lparr>cs_graph = ff_graph (ff_build_graph ex_caps), cs_delta = 8\<rparr>"
    by code_simp
  from initial_delta [OF inf refl] show ?thesis
    by (simp add: ex_caps_values b)
qed

text \<open>
  C7 as the spec words it does not cover a largest declared capacity of 0: delta is
  then 1, which is not below or equal to 0. It does not cover the capacity
  \<^verbatim>\<open>float('inf')\<close> either: every power of two is below it, the doubling loop never
  ends and \<^verbatim>\<open>build_graph\<close> does not return.
\<close>

theorem initial_delta_counterexample:
  "cs_build_graph [mk_edge ''S'' ''T'' (PyInt 0)] =
     Some \<lparr>cs_graph = ff_graph (ff_build_graph [mk_edge ''S'' ''T'' (PyInt 0)]), cs_delta = 1\<rparr> \<and>
   cs_build_graph [mk_edge ''S'' ''T'' (PyFloat PosInf)] = None"
proof -
  have "cs_build_graph [mk_edge ''S'' ''T'' (PyInt 0)] =
     Some \<lparr>cs_graph = ff_graph (ff_build_graph [mk_edge ''S'' ''T'' (PyInt 0)]), cs_delta = 1\<rparr>"
    by code_simp
  moreover have "cs_build_graph [mk_edge ''S'' ''T'' (PyFloat PosInf)] = None"
    by (rule cs_build_graph_diverges) (simp add: mk_edge_def)
  ultimately show ?thesis by simp
qed

section \<open>Capacities are not validated\<close>

lemma ex_neg_edges_cs_build:
  "cs_build_graph ex_neg_edges =
     Some \<lparr>cs_graph = ff_graph (ff_build_graph ex_neg_edges), cs_delta = 2\<rparr>"
  by code_simp

text \<open>
  C8. \<^verbatim>\<open>build_graph\<close> has no check on capacities: an edge list with a negative
  capacity is built like any other. The arc \<open>(u, v)\<close> carries the capacity of its last
  declaration, negative or not, and flow 0: in the graph of the plain stepper, in the
  graph that the loop of the scaling class has filled, and in the state that the
  scaling class returns, which it does whenever no capacity is \<^verbatim>\<open>float('inf')\<close>.
\<close>

theorem build_graph_stores_negative_capacity:
  assumes "es = es1 @ e # es2" and "key e \<notin> key ` set es2"
  shows "map_of (ff_graph (ff_build_graph es)) (edge_u e, edge_v e)
           = Some \<lparr>capacity = edge_capacity e, flow = PyInt 0\<rparr> \<and>
         map_of (fst (cs_add_edges es ([], PyInt 0))) (edge_u e, edge_v e)
           = Some \<lparr>capacity = edge_capacity e, flow = PyInt 0\<rparr> \<and>
         ((\<forall>x \<in> set es. edge_capacity x \<noteq> PyFloat PosInf) \<longrightarrow>
            (\<exists>c. cs_build_graph es = Some c)) \<and>
         (\<forall>c. cs_build_graph es = Some c \<longrightarrow>
            map_of (cs_graph c) (edge_u e, edge_v e)
              = Some \<lparr>capacity = edge_capacity e, flow = PyInt 0\<rparr>)"
proof -
  have look: "map_of (ff_graph (ff_build_graph es)) (edge_u e, edge_v e)
           = Some \<lparr>capacity = edge_capacity e, flow = PyInt 0\<rparr>"
    using build_lookup_declared [OF assms(2), of es1] assms(1)
    by (simp add: ff_build_graph_def key_def)
  have ret: "\<exists>c. cs_build_graph es = Some c"
    if "\<forall>x \<in> set es. edge_capacity x \<noteq> PyFloat PosInf"
    using cs_build_graph_returns [OF that] by blast
  show ?thesis using look ret by (simp add: cs_graph_build cs_add_edges_eq ff_build_graph_def)
qed

theorem build_graph_stores_negative_capacity_witness:
  "map_of (ff_graph (ff_build_graph ex_neg_edges)) (''A'', ''T'')
     = Some \<lparr>capacity = PyInt (- 1), flow = PyInt 0\<rparr> \<and>
   cs_build_graph ex_neg_edges =
     Some \<lparr>cs_graph = ff_graph (ff_build_graph ex_neg_edges), cs_delta = 2\<rparr> \<and>
   map_of (cs_graph \<lparr>cs_graph = ff_graph (ff_build_graph ex_neg_edges), cs_delta = 2\<rparr>) (''A'', ''T'')
     = Some \<lparr>capacity = PyInt (- 1), flow = PyInt 0\<rparr>"
  using build_graph_stores_negative_capacity
    [of ex_neg_edges "[mk_edge ''S'' ''A'' (PyInt 2)]" "mk_edge ''A'' ''T'' (PyInt (- 1))" "[]"]
    ex_neg_edges_cs_build
  by (simp add: ex_neg_edges_def mk_edge_def)

text \<open>
  C8 as the spec words it (\<^verbatim>\<open>build_graph\<close> fails on a negative capacity) does not hold:
  both builders return the graph with the arc of capacity \<open>- 3\<close> in it.
\<close>

theorem build_graph_negative_capacity_counterexample:
  "ff_build_graph [mk_edge ''S'' ''T'' (PyInt (- 3))] =
     \<lparr>ff_graph = [((''S'', ''T''), \<lparr>capacity = PyInt (- 3), flow = PyInt 0\<rparr>),
                  ((''T'', ''S''), \<lparr>capacity = PyInt 0, flow = PyInt 0\<rparr>)],
      ff_flow_val = PyInt 0\<rparr> \<and>
   cs_build_graph [mk_edge ''S'' ''T'' (PyInt (- 3))] =
     Some \<lparr>cs_graph = [((''S'', ''T''), \<lparr>capacity = PyInt (- 3), flow = PyInt 0\<rparr>),
                       ((''T'', ''S''), \<lparr>capacity = PyInt 0, flow = PyInt 0\<rparr>)],
           cs_delta = 1\<rparr>"
  by code_simp

section \<open>The path finder\<close>

lemma walk_snoc: "walk R (p @ [x, y]) = (walk R (p @ [x]) \<and> has_edge R (x, y))"
  by (induction R p rule: walk.induct) auto

lemma successors_has_edge: "y \<in> set (successors R x) \<Longrightarrow> has_edge R (x, y)"
  by (auto simp: successors_def has_edge_def map_of_eq_None_iff intro: rev_image_eqI)

lemma trail_ok_mono: "trail_ok R s seen e \<Longrightarrow> trail_ok R s (seen @ new) e"
  by (auto simp: trail_ok_def)

lemma trail_ok_extend:
  assumes "trail_ok R s seen (x, trail)" "y \<in> set (successors R x)" "y \<notin> set seen" "y \<in> set new"
  shows "trail_ok R s (seen @ new) (y, x # trail)"
proof -
  have w: "walk R (rev trail @ [x])" and d: "distinct (x # trail)" and
    sub: "set (x # trail) \<subseteq> set seen" and l: "last (x # trail) = s"
    using assms(1) by (simp_all add: trail_ok_def)
  have "walk R (rev trail @ [x, y])"
    using w successors_has_edge [OF assms(2)] by (simp add: walk_snoc)
  moreover have "y \<notin> set (x # trail)" using sub assms(3) by blast
  ultimately show ?thesis
    using d sub l assms(4) by (auto simp: trail_ok_def)
qed

lemma bfs_sound:
  "bfs R t seen queue = Some p \<Longrightarrow> \<forall>e \<in> set queue. trail_ok R s seen e
   \<Longrightarrow> p \<noteq> [] \<and> hd p = s \<and> last p = t \<and> walk R p \<and> distinct p"
proof (induction R t seen queue rule: bfs.induct)
  case (1 R t seen)
  then show ?case by (simp add: bfs.simps)
next
  case (2 R t seen x trail queue)
  show ?case
  proof (cases "x = t")
    case True
    with "2.prems"(1) have p: "p = rev (x # trail)" by (simp add: bfs.simps)
    have "trail_ok R s seen (x, trail)" using "2.prems"(2) by simp
    then show ?thesis
      unfolding p using True by (auto simp: trail_ok_def hd_rev last_rev)
  next
    case False
    define new where "new = remdups (filter (\<lambda>y. y \<notin> set seen) (successors R x))"
    have run: "bfs R t (seen @ new) (queue @ map (\<lambda>y. (y, x # trail)) new) = Some p"
      using "2.prems"(1) False by (simp add: bfs.simps new_def Let_def)
    have cur: "trail_ok R s seen (x, trail)" using "2.prems"(2) by simp
    have "\<forall>e \<in> set (queue @ map (\<lambda>y. (y, x # trail)) new). trail_ok R s (seen @ new) e"
    proof
      fix e assume "e \<in> set (queue @ map (\<lambda>y. (y, x # trail)) new)"
      then consider "e \<in> set queue" | y where "y \<in> set new" "e = (y, x # trail)" by auto
      then show "trail_ok R s (seen @ new) e"
      proof cases
        case 1
        then show ?thesis using "2.prems"(2) by (simp add: trail_ok_mono)
      next
        case 2
        then have "y \<in> set (successors R x)" "y \<notin> set seen" by (simp_all add: new_def)
        then show ?thesis unfolding 2(2) using cur 2(1) by (intro trail_ok_extend)
      qed
    qed
    from "2.IH" [OF False new_def run this] show ?thesis .
  qed
qed

lemma shortest_path_sound:
  assumes "shortest_path R s t = Inr p"
  shows "p \<noteq> [] \<and> hd p = s \<and> last p = t \<and> walk R p \<and> distinct p"
proof -
  from assms have "bfs R t [s] [(s, [])] = Some p"
    by (auto simp: shortest_path_def split: if_splits option.splits)
  moreover have "\<forall>e \<in> set [(s, [])]. trail_ok R s [s] e" by (simp add: trail_ok_def)
  ultimately show ?thesis by (rule bfs_sound)
qed

section \<open>Bottleneck and augmentation\<close>

lemma arcs_of_Cons2: "arcs_of (a # b # rest) = (a, b) # arcs_of (b # rest)"
  by (simp add: arcs_of_def)

lemma arcs_of_short: "arcs_of [] = []" "arcs_of [a] = []"
  by (simp_all add: arcs_of_def)

lemma py_min_int: "py_min (PyInt a) (PyInt r) = PyInt (min a r)"
  by (simp add: py_min_def min_def)

lemma py_min_inf: "py_min (PyFloat PosInf) (PyInt r) = PyInt r"
  by (simp add: py_min_def)

lemma bottleneck_int:
  "walk R p \<Longrightarrow> \<forall>r \<in> snd ` set R. \<exists>x. r = PyInt x \<and> m \<le> x \<Longrightarrow> m \<le> a \<Longrightarrow>
   \<exists>n. bottleneck R p (PyInt a) = Inr (PyInt n) \<and> m \<le> n \<and> n \<le> a \<and>
       (\<forall>k \<in> set (arcs_of p). \<exists>r. map_of R k = Some (PyInt r) \<and> n \<le> r)"
proof (induction R p "PyInt a" arbitrary: a rule: bottleneck.induct)
  case (1 R a b rest acc)
  from "1.prems"(1) have e: "has_edge R (a, b)" and w: "walk R (b # rest)" by simp_all
  from e obtain r0 where r0: "map_of R (a, b) = Some r0" by (auto simp: has_edge_def)
  then have "((a, b), r0) \<in> set R" by (rule map_of_SomeD)
  then have "r0 \<in> snd ` set R" by (rule rev_image_eqI) simp
  with "1.prems"(2) obtain r where r: "r0 = PyInt r" "m \<le> r" by blast
  have pm: "py_min (PyInt acc) r0 = PyInt (min acc r)" by (simp add: r(1) py_min_int)
  have m': "m \<le> min acc r" using "1.prems"(3) r(2) by simp
  from "1.hyps" [OF r0 pm w "1.prems"(2) m'] obtain n where
    n: "bottleneck R (b # rest) (PyInt (min acc r)) = Inr (PyInt n)" "m \<le> n" "n \<le> min acc r"
      "\<forall>k \<in> set (arcs_of (b # rest)). \<exists>r. map_of R k = Some (PyInt r) \<and> n \<le> r"
    by blast
  have run: "bottleneck R (a # b # rest) (PyInt acc) = Inr (PyInt n)"
    by (simp add: r0 pm n(1))
  have first: "map_of R (a, b) = Some (PyInt r) \<and> n \<le> r" using r0 r(1) n(3) by simp
  show ?case
    using run n(2,3,4) first by (auto simp add: arcs_of_Cons2)
qed (simp_all add: arcs_of_short)

lemma bottleneck_start:
  assumes "walk R p" and "\<forall>r \<in> snd ` set R. \<exists>x. r = PyInt x \<and> m \<le> x"
  shows "(length p < 2 \<longrightarrow> bottleneck R p (PyFloat PosInf) = Inr (PyFloat PosInf)) \<and>
         (2 \<le> length p \<longrightarrow>
            (\<exists>n. bottleneck R p (PyFloat PosInf) = Inr (PyInt n) \<and> m \<le> n \<and>
               (\<forall>k \<in> set (arcs_of p). \<exists>r. map_of R k = Some (PyInt r) \<and> n \<le> r)))"
proof (cases p)
  case Nil
  then show ?thesis by simp
next
  case outer: (Cons a q)
  show ?thesis
  proof (cases q)
    case Nil
    then show ?thesis by (simp add: outer)
  next
    case (Cons b rest)
    then have p: "p = a # b # rest" by (simp add: outer)
    from assms(1) have e: "has_edge R (a, b)" and w: "walk R (b # rest)" by (simp_all add: p)
    from e obtain r0 where r0: "map_of R (a, b) = Some r0" by (auto simp: has_edge_def)
    then have "((a, b), r0) \<in> set R" by (rule map_of_SomeD)
    then have "r0 \<in> snd ` set R" by (rule rev_image_eqI) simp
    with assms(2) obtain r where r: "r0 = PyInt r" "m \<le> r" by blast
    from bottleneck_int [OF w assms(2) r(2)] obtain n where
      n: "bottleneck R (b # rest) (PyInt r) = Inr (PyInt n)" "m \<le> n" "n \<le> r"
        "\<forall>k \<in> set (arcs_of (b # rest)). \<exists>r. map_of R k = Some (PyInt r) \<and> n \<le> r"
      by blast
    have run: "bottleneck R p (PyFloat PosInf) = Inr (PyInt n)"
      by (simp add: p r0 r(1) py_min_inf n(1))
    have first: "map_of R (a, b) = Some (PyInt r) \<and> n \<le> r" using r0 r(1) n(3) by simp
    show ?thesis
      using run n(2,4) first by (auto simp add: p arcs_of_Cons2)
  qed
qed

lemma map_of_set_flow:
  "map_of (set_flow g k x) k' =
     (if k' = k then map_option (\<lambda>d. d\<lparr>flow := x\<rparr>) (map_of g k) else map_of g k')"
  by (simp add: set_flow_def map_of_map_entry split: option.split)

lemma keys_set_flow: "map fst (set_flow g k x) = map fst g"
  unfolding set_flow_def by (induction g) auto

lemma outflow_set_flow:
  "map_of g (a, b) = Some d \<Longrightarrow>
     outflow (set_flow g (a, b) v) x =
       outflow g x + (if x = a then value_of v - value_of (flow d) else 0)"
  unfolding set_flow_def outflow_def
  by (induction g) (auto split: if_splits)

lemma inflow_set_flow:
  "map_of g (a, b) = Some d \<Longrightarrow>
     inflow (set_flow g (a, b) v) x =
       inflow g x + (if x = b then value_of v - value_of (flow d) else 0)"
  unfolding set_flow_def inflow_def
  by (induction g) (auto split: if_splits)

lemma arcs_of_nodes: "k \<in> set (arcs_of p) \<Longrightarrow> fst k \<in> set p \<and> snd k \<in> set p"
  unfolding arcs_of_def
  by (cases k; cases p) (auto dest: set_zip_leftD set_zip_rightD)

lemma room_first:
  "room g (a # b # rest) n \<Longrightarrow>
     \<exists>c f. map_of g (a, b) = Some \<lparr>capacity = PyInt c, flow = PyInt f\<rparr> \<and> f + n \<le> c"
  by (simp add: room_def arcs_of_Cons2)

lemma push_int:
  assumes "map_of g (a, b) = Some \<lparr>capacity = PyInt c, flow = PyInt f\<rparr>" "f + n \<le> c"
  shows "forward_test g a b (PyInt n) = Inr True"
    and "push g a b (PyInt n) = Inr (set_flow g (a, b) (PyInt (f + n)))"
  using assms by (simp_all add: push_def forward_test_def push_forward_def)

lemma room_step:
  assumes "room g (a # b # rest) n" "distinct (a # b # rest)"
  shows "room (set_flow g (a, b) v) (b # rest) n"
proof -
  have "k \<noteq> (a, b)" if "k \<in> set (arcs_of (b # rest))" for k
    using arcs_of_nodes [OF that] assms(2) by auto
  then show ?thesis
    using assms(1) by (simp add: room_def arcs_of_Cons2 map_of_set_flow)
qed

lemma augment_forward:
  "room g p n \<Longrightarrow> distinct p \<Longrightarrow>
   \<exists>g'. augment g p (PyInt n) = (g', None) \<and> reverse_pushes g p (PyInt n) = 0 \<and>
     map fst g' = map fst g \<and>
     (\<forall>k. map_of g' k =
        (if k \<in> set (arcs_of p) then map_option (add_int n) (map_of g k) else map_of g k)) \<and>
     (\<forall>x. p \<noteq> [] \<longrightarrow> outflow g' x - inflow g' x =
        outflow g x - inflow g x + (if x = hd p then of_int n else 0)
          - (if x = last p then of_int n else 0))"
proof (induction g p "PyInt n" rule: augment.induct)
  case (1 g a b rest)
  from room_first [OF "1.prems"(1)] obtain c f where
    d: "map_of g (a, b) = Some \<lparr>capacity = PyInt c, flow = PyInt f\<rparr>" "f + n \<le> c" by blast
  let ?g1 = "set_flow g (a, b) (PyInt (f + n))"
  have fw: "forward_test g a b (PyInt n) = Inr True" using d by (rule push_int)
  have push: "push g a b (PyInt n) = Inr ?g1" using d by (rule push_int)
  have r1: "room ?g1 (b # rest) n" using "1.prems" by (rule room_step)
  have d1: "distinct (b # rest)" using "1.prems"(2) by simp
  from "1.hyps" [OF push r1 d1] obtain g' where g':
    "augment ?g1 (b # rest) (PyInt n) = (g', None)" "reverse_pushes ?g1 (b # rest) (PyInt n) = 0"
    "map fst g' = map fst ?g1"
    "\<forall>k. map_of g' k =
        (if k \<in> set (arcs_of (b # rest)) then map_option (add_int n) (map_of ?g1 k)
         else map_of ?g1 k)"
    "\<forall>x. outflow g' x - inflow g' x =
        outflow ?g1 x - inflow ?g1 x + (if x = b then of_int n else 0)
          - (if x = last (b # rest) then of_int n else 0)"
    by auto
  have notin: "(a, b) \<notin> set (arcs_of (b # rest))"
    using arcs_of_nodes [of "(a, b)" "b # rest"] "1.prems"(2) by auto
  have look: "map_of g' k =
        (if k \<in> set (arcs_of (a # b # rest)) then map_option (add_int n) (map_of g k)
         else map_of g k)" for k
  proof (cases "k = (a, b)")
    case True
    then show ?thesis
      using g'(4) [rule_format, of k] notin d(1)
      by (simp add: arcs_of_Cons2 map_of_set_flow add_int_def)
  next
    case False
    then show ?thesis
      using g'(4) [rule_format, of k] by (simp add: arcs_of_Cons2 map_of_set_flow)
  qed
  have ex: "outflow g' x - inflow g' x =
        outflow g x - inflow g x + (if x = a then of_int n else 0)
          - (if x = last (a # b # rest) then of_int n else 0)"
    for x
    using g'(5) [rule_format, of x] outflow_set_flow [OF d(1), of "PyInt (f + n)" x]
      inflow_set_flow [OF d(1), of "PyInt (f + n)" x]
    by simp
  show ?case
    using g'(1,2,3) fw push look ex by (simp add: keys_set_flow)
qed (simp_all add: arcs_of_short)

lemma flows_ok_member:
  "flows_ok g \<Longrightarrow> (k, d) \<in> set g \<Longrightarrow>
     \<exists>c f. d = \<lparr>capacity = PyInt c, flow = PyInt f\<rparr> \<and> 0 \<le> f \<and> f \<le> max 0 c"
proof -
  assume "flows_ok g" "(k, d) \<in> set g"
  then have w: "arc_ok (capacity d) (flow d)" by (auto simp: flows_ok_def list_all_iff)
  then obtain c f where "capacity d = PyInt c" "flow d = PyInt f"
    by (cases "capacity d"; cases "flow d") simp_all
  with w show ?thesis by (cases d) simp
qed

lemma flows_ok_entry:
  "flows_ok g \<Longrightarrow> map_of g k = Some d \<Longrightarrow>
     \<exists>c f. d = \<lparr>capacity = PyInt c, flow = PyInt f\<rparr> \<and> 0 \<le> f \<and> f \<le> max 0 c"
  by (auto dest: map_of_SomeD flows_ok_member)

lemma flows_ok_Cons:
  "flows_ok ((k, d) # g) \<Longrightarrow>
     (\<exists>c f. d = \<lparr>capacity = PyInt c, flow = PyInt f\<rparr>) \<and> flows_ok g"
proof -
  assume a: "flows_ok ((k, d) # g)"
  from flows_ok_member [OF a, of k d] have "\<exists>c f. d = \<lparr>capacity = PyInt c, flow = PyInt f\<rparr>"
    by auto
  moreover from a have "flows_ok g" by (simp add: flows_ok_def)
  ultimately show ?thesis by simp
qed

lemma residual_int:
  "flows_ok g \<Longrightarrow>
     residual_where P g =
       Inr (filter (\<lambda>(k, r). P r)
              (map (\<lambda>(k, d). (k, PyInt (the_int (capacity d) - the_int (flow d)))) g))"
proof (induction g)
  case Nil
  show ?case by simp
next
  case (Cons e g)
  obtain k d where e: "e = (k, d)" by (cases e)
  from flows_ok_Cons [OF Cons.prems [unfolded e]] obtain c f where
    d: "d = \<lparr>capacity = PyInt c, flow = PyInt f\<rparr>" and rest: "flows_ok g" by blast
  show ?case by (simp add: e d Cons.IH [OF rest])
qed

lemma residual_lookup:
  assumes "inv g" "residual_where P g = Inr R" "map_of R k = Some r"
  shows "\<exists>c f. map_of g k = Some \<lparr>capacity = PyInt c, flow = PyInt f\<rparr> \<and> r = PyInt (c - f) \<and> P r"
proof -
  have dg: "distinct (map fst g)" and fg: "flows_ok g" using assms(1) by (simp_all add: inv_def)
  from assms(3) have "(k, r) \<in> set R" by (rule map_of_SomeD)
  then obtain d where d: "(k, d) \<in> set g" "r = PyInt (the_int (capacity d) - the_int (flow d))" "P r"
    using assms(2) by (auto simp: residual_int [OF fg])
  from flows_ok_member [OF fg d(1)] obtain c f where
    "d = \<lparr>capacity = PyInt c, flow = PyInt f\<rparr>" by blast
  with d dg show ?thesis by auto
qed

lemma residual_values:
  assumes "flows_ok g" "residual_where P g = Inr R" "r \<in> snd ` set R"
  shows "\<exists>x. r = PyInt x \<and> P r"
  using assms(2,3) by (auto simp: residual_int [OF assms(1)])

lemma augment_inv:
  assumes "inv g" "room g p n" "distinct p" "0 \<le> n"
  shows "\<exists>g'. augment g p (PyInt n) = (g', None) \<and> reverse_pushes g p (PyInt n) = 0 \<and> inv g' \<and>
     (\<forall>x. p \<noteq> [] \<longrightarrow> outflow g' x - inflow g' x =
        outflow g x - inflow g x + (if x = hd p then of_int n else 0)
          - (if x = last p then of_int n else 0))"
proof -
  from augment_forward [OF assms(2,3)] obtain g' where g':
    "augment g p (PyInt n) = (g', None)" "reverse_pushes g p (PyInt n) = 0" "map fst g' = map fst g"
    "\<forall>k. map_of g' k =
        (if k \<in> set (arcs_of p) then map_option (add_int n) (map_of g k) else map_of g k)"
    "\<forall>x. p \<noteq> [] \<longrightarrow> outflow g' x - inflow g' x =
        outflow g x - inflow g x + (if x = hd p then of_int n else 0)
          - (if x = last p then of_int n else 0)"
    by blast
  have dg: "distinct (map fst g)" and fg: "flows_ok g" using assms(1) by (simp_all add: inv_def)
  have dg': "distinct (map fst g')" using dg g'(3) by simp
  have "\<exists>c f. d' = \<lparr>capacity = PyInt c, flow = PyInt f\<rparr> \<and> 0 \<le> f \<and> f \<le> max 0 c"
    if "(k, d') \<in> set g'" for k d'
  proof -
    from that dg' have l: "map_of g' k = Some d'" by simp
    show ?thesis
    proof (cases "k \<in> set (arcs_of p)")
      case True
      with assms(2) obtain c f where
        d: "map_of g k = Some \<lparr>capacity = PyInt c, flow = PyInt f\<rparr>" "f + n \<le> c"
        by (auto simp: room_def)
      from l g'(4) [rule_format, of k] True d(1)
      have "d' = \<lparr>capacity = PyInt c, flow = PyInt (f + n)\<rparr>" by (simp add: add_int_def)
      then show ?thesis using d(2) flows_ok_entry [OF fg d(1)] assms(4) by simp
    next
      case False
      with l g'(4) [rule_format, of k] have "map_of g k = Some d'" by simp
      then show ?thesis by (rule flows_ok_entry [OF fg])
    qed
  qed
  then have "arc_ok (capacity d') (flow d')" if "(k, d') \<in> set g'" for k d'
    using that by fastforce
  then have "flows_ok g'" by (auto simp: flows_ok_def list_all_iff)
  with dg' g'(1,2,5) show ?thesis by (auto simp: inv_def)
qed

lemma path_push:
  assumes "inv g" and P: "\<And>r. P (PyInt r) \<Longrightarrow> 1 \<le> r"
    and res: "residual_where P g = Inr R"
    and sp: "shortest_path R src snk = Inr p"
  shows "p \<noteq> [] \<and> hd p = src \<and> last p = snk \<and>
    (\<exists>b g'. bottleneck R p (PyFloat PosInf) = Inr b \<and>
       augment g p b = (g', None) \<and> reverse_pushes g p b = 0 \<and> inv g' \<and>
       (src = snk \<longrightarrow> b = PyFloat PosInf \<and> g' = g) \<and>
       (src \<noteq> snk \<longrightarrow>
          (\<exists>n. b = PyInt n \<and> 1 \<le> n \<and>
             (\<forall>x. outflow g' x - inflow g' x =
                outflow g x - inflow g x + (if x = src then of_int n else 0)
                  - (if x = snk then of_int n else 0)))))"
proof -
  from shortest_path_sound [OF sp]
  have p: "p \<noteq> []" "hd p = src" "last p = snk" "walk R p" "distinct p" by simp_all
  have fg: "flows_ok g" using assms(1) by (simp add: inv_def)
  have vals: "\<forall>r \<in> snd ` set R. \<exists>x. r = PyInt x \<and> 1 \<le> x"
  proof
    fix r assume "r \<in> snd ` set R"
    from residual_values [OF fg res this] obtain x where x: "r = PyInt x" "P r" by blast
    from P [of x] x show "\<exists>x. r = PyInt x \<and> 1 \<le> x" by simp
  qed
  note bs = bottleneck_start [OF p(4) vals]
  show ?thesis
  proof (cases "length p < 2")
    case True
    with p(1) obtain a where a: "p = [a]" by (cases p) auto
    with p(2,3) have eq: "src = snk" by simp
    have "bottleneck R p (PyFloat PosInf) = Inr (PyFloat PosInf)" using bs True by blast
    moreover have "augment g p (PyFloat PosInf) = (g, None)" by (simp add: a)
    moreover have "reverse_pushes g p (PyFloat PosInf) = 0" by (simp add: a)
    ultimately show ?thesis using p(1,2,3) eq assms(1) by blast
  next
    case False
    then have long: "2 \<le> length p" by simp
    have ne: "src \<noteq> snk"
    proof
      assume "src = snk"
      with p(1,2,3) have hl: "hd p = last p" by simp
      from long obtain a b q' where "p = a # b # q'" by (cases p; cases "tl p") auto
      then obtain a q where q: "p = a # q" "q \<noteq> []" by blast
      then have "last p \<in> set q" by simp
      with hl p(5) q(1) show False by simp
    qed
    from bs long obtain n where n:
      "bottleneck R p (PyFloat PosInf) = Inr (PyInt n)" "1 \<le> n"
      "\<forall>k \<in> set (arcs_of p). \<exists>r. map_of R k = Some (PyInt r) \<and> n \<le> r"
      by blast
    have "room g p n"
      unfolding room_def
    proof
      fix k assume "k \<in> set (arcs_of p)"
      with n(3) obtain r where r: "map_of R k = Some (PyInt r)" "n \<le> r" by auto
      from residual_lookup [OF assms(1) res r(1)] obtain c f where
        "map_of g k = Some \<lparr>capacity = PyInt c, flow = PyInt f\<rparr>" "PyInt r = PyInt (c - f)" by blast
      with r(2) show "\<exists>c f. map_of g k = Some \<lparr>capacity = PyInt c, flow = PyInt f\<rparr> \<and> f + n \<le> c"
        by auto
    qed
    from augment_inv [OF assms(1) this p(5)] n(2) p(1,2,3) obtain g' where
      "augment g p (PyInt n) = (g', None)" "reverse_pushes g p (PyInt n) = 0" "inv g'"
      "\<forall>x. outflow g' x - inflow g' x =
          outflow g x - inflow g x + (if x = src then of_int n else 0)
            - (if x = snk then of_int n else 0)"
      by auto
    with n(1,2) ne p(1,2,3) show ?thesis by blast
  qed
qed

lemma shortest_path_raises:
  "shortest_path R s t = Inl e \<Longrightarrow> e = NodeNotFound \<or> e = NetworkXNoPath"
  by (auto simp: shortest_path_def split: if_splits option.splits)

lemma shortest_path_cases:
  obtains "shortest_path R s t = Inl NodeNotFound"
  | "shortest_path R s t = Inl NetworkXNoPath"
  | p where "shortest_path R s t = Inr p"
proof (cases "shortest_path R s t")
  case (Inl e)
  then show ?thesis using that shortest_path_raises [OF Inl] by auto
next
  case (Inr p)
  then show ?thesis using that by blast
qed

section \<open>Invariants of stepping\<close>

lemma to_double_raises: "to_double i = Inl e \<Longrightarrow> e = OverflowError"
  by (auto simp: to_double_def split: double.splits)

lemma num_add_raises: "num_add a b = Inl e \<Longrightarrow> e = OverflowError"
  by (cases a; cases b) (auto simp: map_sum_def dest: to_double_raises split: sum.splits)

lemma inv_residual: "inv g \<Longrightarrow> \<exists>R. residual_where P g = Inr R"
  by (simp add: inv_def residual_int)

lemma ff_step_inv:
  assumes "inv (ff_graph s)"
  shows "inv (ff_graph (fst (ff_step src snk s))) \<and> ff_reverse_pushes src snk s = 0 \<and>
         snd (ff_step src snk s) \<noteq> Raised KeyError"
proof -
  from inv_residual [OF assms] obtain R where
    R: "residual_where (\<lambda>residual. num_lt (PyInt 0) residual) (ff_graph s) = Inr R" by blast
  show ?thesis
  proof (cases rule: shortest_path_cases [of R src snk])
    case 1
    then show ?thesis using assms R
      by (simp add: ff_step_def ff_reverse_pushes_def step_reverse_pushes_def get_residual_graph_def)
  next
    case 2
    then show ?thesis using assms R
      by (simp add: ff_step_def ff_reverse_pushes_def step_reverse_pushes_def get_residual_graph_def)
  next
    case (3 p)
    have P: "\<And>r. num_lt (PyInt 0) (PyInt r) \<Longrightarrow> 1 \<le> r" by simp
    from path_push [of "ff_graph s" "\<lambda>residual. num_lt (PyInt 0) residual", OF assms P R 3]
    obtain b g' where b: "bottleneck R p (PyFloat PosInf) = Inr b"
      "augment (ff_graph s) p b = (g', None)" "reverse_pushes (ff_graph s) p b = 0" "inv g'"
      by blast
    show ?thesis
      using 3 R b
      by (cases "num_add (ff_flow_val s) b")
        (auto simp add: ff_step_def ff_reverse_pushes_def step_reverse_pushes_def
          get_residual_graph_def dest: num_add_raises)
  qed
qed

lemma cs_step_inv:
  assumes "inv (cs_graph s)"
  shows "inv (cs_graph (fst (cs_step src snk s))) \<and> cs_reverse_pushes src snk s = 0 \<and>
         snd (cs_step src snk s) \<noteq> Raised KeyError"
proof (cases "cs_delta s < 1")
  case True
  then show ?thesis using assms by (simp add: cs_step_def cs_reverse_pushes_def)
next
  case False
  from inv_residual [OF assms] obtain R where
    R: "residual_where (\<lambda>residual. num_le (PyInt (cs_delta s)) residual) (cs_graph s) = Inr R"
    by blast
  show ?thesis
  proof (cases rule: shortest_path_cases [of R src snk])
    case 1
    then show ?thesis using assms False R
      by (simp add: cs_step_def cs_reverse_pushes_def step_reverse_pushes_def)
  next
    case 2
    then show ?thesis using assms False R
      by (simp add: cs_step_def cs_reverse_pushes_def step_reverse_pushes_def)
  next
    case (3 p)
    have P: "\<And>r. num_le (PyInt (cs_delta s)) (PyInt r) \<Longrightarrow> 1 \<le> r" using False by simp
    from path_push [of "cs_graph s" "\<lambda>residual. num_le (PyInt (cs_delta s)) residual",
        OF assms P R 3]
    obtain b g' where b: "bottleneck R p (PyFloat PosInf) = Inr b"
      "augment (cs_graph s) p b = (g', None)" "reverse_pushes (cs_graph s) p b = 0" "inv g'"
      by blast
    show ?thesis
      using 3 R b False
      by (simp add: cs_step_def cs_reverse_pushes_def step_reverse_pushes_def)
  qed
qed

lemma last_cap_mem: "last_cap es k = Some c \<Longrightarrow> c \<in> edge_capacity ` set es"
  by (induction es) (auto split: option.splits if_splits)

lemma build_member:
  assumes "(k, d) \<in> set (ff_add_edges es [])"
  shows "flow d = PyInt 0 \<and> (capacity d = PyInt 0 \<or> capacity d \<in> edge_capacity ` set es)"
proof -
  have "distinct (map fst (ff_add_edges es []))" by (rule distinct_ff_add_edges) simp
  with assms have l: "map_of (ff_add_edges es []) k = Some d" by simp
  obtain x y where k: "k = (x, y)" by (cases k)
  from l show ?thesis
    unfolding k ff_add_edges_lookup
    by (auto simp: zero_arc_def dest: last_cap_mem split: option.splits if_splits)
qed

lemma build_flows_zero: "(k, d) \<in> set (ff_add_edges es []) \<Longrightarrow> flow d = PyInt 0"
  using build_member by blast

lemma build_inv:
  assumes "int_capacities es"
  shows "inv (ff_add_edges es [])"
proof -
  have "arc_ok (capacity d) (flow d)" if "(k, d) \<in> set (ff_add_edges es [])" for k d
  proof -
    from build_member [OF that] have f: "flow d = PyInt 0"
      and c: "capacity d = PyInt 0 \<or> capacity d \<in> edge_capacity ` set es" by simp_all
    from c assms have "is_int (capacity d)"
      by (auto simp: int_capacities_def list_all_iff)
    then obtain c' where "capacity d = PyInt c'" by (cases "capacity d") simp_all
    then show ?thesis by (simp add: f)
  qed
  then have "flows_ok (ff_add_edges es [])" by (auto simp: flows_ok_def list_all_iff)
  moreover have "distinct (map fst (ff_add_edges es []))" by (rule distinct_ff_add_edges) simp
  ultimately show ?thesis by (simp add: inv_def)
qed

lemma sum_list_zero: "(\<And>x. x \<in> set xs \<Longrightarrow> f x = (0::rat)) \<Longrightarrow> sum_list (map f xs) = 0"
  by (induction xs) simp_all

lemma build_outflow: "outflow (ff_add_edges es []) x = 0"
  unfolding outflow_def using build_flows_zero [of _ _ es]
  by (intro sum_list_zero) auto

lemma build_inflow: "inflow (ff_add_edges es []) x = 0"
  unfolding inflow_def using build_flows_zero [of _ _ es]
  by (intro sum_list_zero) auto

lemma ff_iterate_inv:
  "int_capacities es \<Longrightarrow> inv (ff_graph (ff_iterate src snk j (ff_build_graph es)))"
proof (induction j)
  case 0
  then show ?case by (simp add: ff_build_graph_def build_inv)
next
  case (Suc j)
  then show ?case using ff_step_inv by simp
qed

lemma cs_iterate_inv:
  "int_capacities es \<Longrightarrow> cs_build_graph es = Some c \<Longrightarrow>
     inv (cs_graph (cs_iterate src snk j c))"
proof (induction j)
  case 0
  then show ?case by (simp add: cs_graph_build ff_build_graph_def build_inv)
next
  case (Suc j)
  then show ?case using cs_step_inv by simp
qed

lemma int_capacities_finite:
  "int_capacities es \<Longrightarrow> \<forall>e \<in> set es. edge_capacity e \<noteq> PyFloat PosInf"
  by (auto simp: int_capacities_def list_all_iff)

lemma int_capacities_build:
  "int_capacities es \<Longrightarrow>
     \<exists>d. cs_build_graph es = Some \<lparr>cs_graph = ff_graph (ff_build_graph es), cs_delta = d\<rparr>"
  by (intro cs_build_graph_returns int_capacities_finite)

section \<open>The path finder reports no path only when there is none\<close>

lemma has_edge_successors: "has_edge R (x, y) \<Longrightarrow> y \<in> set (successors R x)"
proof -
  assume "has_edge R (x, y)"
  then obtain r where "map_of R (x, y) = Some r" by (auto simp: has_edge_def)
  then have "((x, y), r) \<in> set R" by (rule map_of_SomeD)
  then show ?thesis by (force simp: successors_def)
qed

lemma walk_stays:
  "\<forall>u \<in> S. set (successors R u) \<subseteq> S \<Longrightarrow> walk R p \<Longrightarrow> p \<noteq> [] \<Longrightarrow> hd p \<in> S
   \<Longrightarrow> last p \<in> S"
proof (induction R p rule: walk.induct)
  case (1 R a b rest)
  from "1.prems"(2) have e: "has_edge R (a, b)" and w: "walk R (b # rest)" by simp_all
  from "1.prems"(4) have "a \<in> S" by simp
  with "1.prems"(1) has_edge_successors [OF e] have "b \<in> S" by blast
  with "1.IH" [OF "1.prems"(1) w] show ?case by simp
qed simp_all

lemma bfs_complete:
  "bfs R t seen queue = None \<Longrightarrow> s \<in> set seen \<Longrightarrow> fst ` set queue \<subseteq> set seen \<Longrightarrow>
   \<forall>u \<in> set seen - fst ` set queue. u \<noteq> t \<and> set (successors R u) \<subseteq> set seen \<Longrightarrow>
   \<exists>S. s \<in> S \<and> t \<notin> S \<and> (\<forall>u \<in> S. set (successors R u) \<subseteq> S)"
proof (induction R t seen queue rule: bfs.induct)
  case (1 R t seen)
  then have "s \<in> set seen \<and> t \<notin> set seen \<and> (\<forall>u \<in> set seen. set (successors R u) \<subseteq> set seen)"
    by auto
  then show ?case by blast
next
  case (2 R t seen x trail queue)
  have ne: "x \<noteq> t" using "2.prems"(1) by (auto simp: bfs.simps split: if_splits)
  define new where "new = remdups (filter (\<lambda>y. y \<notin> set seen) (successors R x))"
  have run: "bfs R t (seen @ new) (queue @ map (\<lambda>y. (y, x # trail)) new) = None"
    using "2.prems"(1) ne by (simp add: bfs.simps new_def Let_def)
  have q: "fst ` set (queue @ map (\<lambda>y. (y, x # trail)) new) = fst ` set queue \<union> set new"
    by (auto simp: image_Un image_image)
  have a: "s \<in> set (seen @ new)" using "2.prems"(2) by simp
  have b: "fst ` set (queue @ map (\<lambda>y. (y, x # trail)) new) \<subseteq> set (seen @ new)"
    unfolding q using "2.prems"(3) by auto
  have sx: "set (successors R x) \<subseteq> set (seen @ new)" by (auto simp: new_def)
  have c: "\<forall>u \<in> set (seen @ new) - fst ` set (queue @ map (\<lambda>y. (y, x # trail)) new).
      u \<noteq> t \<and> set (successors R u) \<subseteq> set (seen @ new)"
  proof
    fix u assume "u \<in> set (seen @ new) - fst ` set (queue @ map (\<lambda>y. (y, x # trail)) new)"
    then have u: "u \<in> set seen" "u \<notin> fst ` set queue" unfolding q by auto
    show "u \<noteq> t \<and> set (successors R u) \<subseteq> set (seen @ new)"
    proof (cases "u = x")
      case True
      then show ?thesis using ne sx by simp
    next
      case False
      with u have "u \<in> set seen - fst ` set ((x, trail) # queue)" by simp
      with "2.prems"(4) show ?thesis by auto
    qed
  qed
  from "2.IH" [OF ne new_def run a b c] show ?case .
qed

lemma shortest_path_complete:
  assumes "shortest_path R s t = Inl NetworkXNoPath"
  shows "\<not> (\<exists>p. p \<noteq> [] \<and> hd p = s \<and> last p = t \<and> walk R p)"
proof -
  from assms have "bfs R t [s] [(s, [])] = None"
    by (auto simp: shortest_path_def split: if_splits option.splits)
  from bfs_complete [OF this, of s] obtain S where
    S: "s \<in> S" "t \<notin> S" "\<forall>u \<in> S. set (successors R u) \<subseteq> S" by auto
  show ?thesis using walk_stays [OF S(3)] S(1,2) by blast
qed

text \<open>
  The finder answers \<^verbatim>\<open>NetworkXNoPath\<close> exactly when source and target are nodes of
  the graph and no walk leads from the source to the target.
\<close>

lemma shortest_path_no_path_iff:
  "(shortest_path R s t = Inl NetworkXNoPath) =
     (s \<in> set (nodes_of R) \<and> t \<in> set (nodes_of R) \<and>
      \<not> (\<exists>p. p \<noteq> [] \<and> hd p = s \<and> last p = t \<and> walk R p))"
proof
  assume a: "shortest_path R s t = Inl NetworkXNoPath"
  then have "s \<in> set (nodes_of R) \<and> t \<in> set (nodes_of R)"
    by (auto simp: shortest_path_def split: if_splits)
  with shortest_path_complete [OF a] show "s \<in> set (nodes_of R) \<and> t \<in> set (nodes_of R) \<and>
      \<not> (\<exists>p. p \<noteq> [] \<and> hd p = s \<and> last p = t \<and> walk R p)" by simp
next
  assume a: "s \<in> set (nodes_of R) \<and> t \<in> set (nodes_of R) \<and>
      \<not> (\<exists>p. p \<noteq> [] \<and> hd p = s \<and> last p = t \<and> walk R p)"
  show "shortest_path R s t = Inl NetworkXNoPath"
  proof (cases rule: shortest_path_cases [of R s t])
    case 1
    with a show ?thesis by (simp add: shortest_path_def split: option.splits)
  next
    case 2
    then show ?thesis .
  next
    case (3 p)
    from shortest_path_sound [OF this] a show ?thesis by blast
  qed
qed

section \<open>Conservation\<close>

lemma ff_step_conserved:
  assumes "src \<noteq> snk" "inv (ff_graph s)" "ff_flow_val s = PyInt F"
    "conserved src snk (ff_graph s) (of_int F)"
  shows "\<exists>F'. ff_flow_val (fst (ff_step src snk s)) = PyInt F' \<and>
           conserved src snk (ff_graph (fst (ff_step src snk s))) (of_int F')"
proof -
  from inv_residual [OF assms(2)] obtain R where
    R: "residual_where (\<lambda>residual. num_lt (PyInt 0) residual) (ff_graph s) = Inr R" by blast
  show ?thesis
  proof (cases rule: shortest_path_cases [of R src snk])
    case 1
    then show ?thesis using assms(3,4) R by (simp add: ff_step_def get_residual_graph_def)
  next
    case 2
    then show ?thesis using assms(3,4) R by (simp add: ff_step_def get_residual_graph_def)
  next
    case (3 p)
    have P: "\<And>r. num_lt (PyInt 0) (PyInt r) \<Longrightarrow> 1 \<le> r" by simp
    from path_push [of "ff_graph s" "\<lambda>residual. num_lt (PyInt 0) residual", OF assms(2) P R 3]
      assms(1)
    obtain g' n where b: "bottleneck R p (PyFloat PosInf) = Inr (PyInt n)"
      "augment (ff_graph s) p (PyInt n) = (g', None)"
      "\<forall>x. outflow g' x - inflow g' x =
          outflow (ff_graph s) x - inflow (ff_graph s) x
            + (if x = src then of_int n else 0) - (if x = snk then of_int n else 0)"
      by blast
    have step: "fst (ff_step src snk s) = \<lparr>ff_graph = g', ff_flow_val = PyInt (F + n)\<rparr>"
      using 3 R b(1,2) assms(3) by (simp add: ff_step_def get_residual_graph_def)
    have "conserved src snk g' (of_int (F + n))"
      unfolding conserved_def
    proof
      fix x
      show "outflow g' x - inflow g' x =
          (if x = src then of_int (F + n) else 0) - (if x = snk then of_int (F + n) else 0)"
        using b(3) [rule_format, of x] assms(4) [unfolded conserved_def, rule_format, of x]
        by simp
    qed
    then show ?thesis by (simp add: step)
  qed
qed

lemma ff_iterate_conserved:
  assumes "src \<noteq> snk" "int_capacities es"
  shows "\<exists>F. ff_flow_val (ff_iterate src snk j (ff_build_graph es)) = PyInt F \<and>
           conserved src snk (ff_graph (ff_iterate src snk j (ff_build_graph es))) (of_int F)"
proof (induction j)
  case 0
  show ?case
    by (simp add: ff_build_graph_def conserved_def build_outflow build_inflow)
next
  case (Suc j)
  then obtain F where "ff_flow_val (ff_iterate src snk j (ff_build_graph es)) = PyInt F"
    "conserved src snk (ff_graph (ff_iterate src snk j (ff_build_graph es))) (of_int F)" by blast
  from ff_step_conserved [OF assms(1) ff_iterate_inv [OF assms(2)] this] show ?case by simp
qed

lemma inv_int_flows: "inv g \<Longrightarrow> (k, d) \<in> set g \<Longrightarrow> is_int (capacity d) \<and> is_int (flow d)"
  by (auto simp: inv_def dest: flows_ok_member)

text \<open>
  C3. For an edge list whose capacities are all integers, after any number of calls of
  the plain stepper's \<^verbatim>\<open>step()\<close> on the built graph the running total is an integer
  \<open>F\<close> and every flow field is an integer; at every node other than \<^verbatim>\<open>'S'\<close> and
  \<^verbatim>\<open>'T'\<close> the flow entering equals the flow leaving, the net flow out of \<^verbatim>\<open>'S'\<close> is
  \<open>F\<close> and the net flow into \<^verbatim>\<open>'T'\<close> is \<open>F\<close>.
\<close>

theorem ff_flow_conservation:
  assumes "int_capacities es" and "s = ff_iterate ''S'' ''T'' j (ff_build_graph es)"
  shows "\<exists>F. ff_flow_val s = PyInt F \<and>
           (\<forall>(k, d) \<in> set (ff_graph s). is_int (flow d)) \<and>
           (\<forall>x. x \<noteq> ''S'' \<and> x \<noteq> ''T'' \<longrightarrow> inflow (ff_graph s) x = outflow (ff_graph s) x) \<and>
           outflow (ff_graph s) ''S'' - inflow (ff_graph s) ''S'' = of_int F \<and>
           inflow (ff_graph s) ''T'' - outflow (ff_graph s) ''T'' = of_int F"
proof -
  have ne: "''S'' \<noteq> ''T''" by simp
  from ff_iterate_conserved [OF ne assms(1), of j] obtain F where
    F: "ff_flow_val s = PyInt F" and c: "conserved ''S'' ''T'' (ff_graph s) (of_int F)"
    unfolding assms(2) by blast
  have "inv (ff_graph s)" unfolding assms(2) using assms(1) by (rule ff_iterate_inv)
  then have ints: "\<forall>(k, d) \<in> set (ff_graph s). is_int (flow d)"
    using inv_int_flows by blast
  have "inflow (ff_graph s) x = outflow (ff_graph s) x" if "x \<noteq> ''S'' \<and> x \<noteq> ''T''" for x
    using c [unfolded conserved_def, rule_format, of x] that by simp
  moreover have "outflow (ff_graph s) ''S'' - inflow (ff_graph s) ''S'' = of_int F"
    using c [unfolded conserved_def, rule_format, of "''S''"] by simp
  moreover have "inflow (ff_graph s) ''T'' - outflow (ff_graph s) ''T'' = of_int F"
    using c [unfolded conserved_def, rule_format, of "''T''"] by simp
  ultimately show ?thesis using F ints by blast
qed

lemma ex_line_after:
  "ff_iterate ''S'' ''T'' 1 (ff_build_graph ex_line) =
    \<lparr>ff_graph = [((''S'', ''A''), \<lparr>capacity = PyInt 2, flow = PyInt 1\<rparr>),
                  ((''A'', ''S''), \<lparr>capacity = PyInt 0, flow = PyInt 0\<rparr>),
                  ((''A'', ''T''), \<lparr>capacity = PyInt 1, flow = PyInt 1\<rparr>),
                  ((''T'', ''A''), \<lparr>capacity = PyInt 0, flow = PyInt 0\<rparr>)],
       ff_flow_val = PyInt 1\<rparr>"
  by code_simp

lemma ex_line_int: "int_capacities ex_line"
  by code_simp

theorem ff_flow_conservation_witness:
  "int_capacities ex_line \<and>
   ff_flow_val (ff_iterate ''S'' ''T'' 1 (ff_build_graph ex_line)) = PyInt 1 \<and>
   inflow (ff_graph (ff_iterate ''S'' ''T'' 1 (ff_build_graph ex_line))) ''A'' = 1 \<and>
   outflow (ff_graph (ff_iterate ''S'' ''T'' 1 (ff_build_graph ex_line))) ''A'' = 1 \<and>
   outflow (ff_graph (ff_iterate ''S'' ''T'' 1 (ff_build_graph ex_line))) ''S''
     - inflow (ff_graph (ff_iterate ''S'' ''T'' 1 (ff_build_graph ex_line))) ''S'' = 1 \<and>
   inflow (ff_graph (ff_iterate ''S'' ''T'' 1 (ff_build_graph ex_line))) ''T''
     - outflow (ff_graph (ff_iterate ''S'' ''T'' 1 (ff_build_graph ex_line))) ''T'' = 1"
proof -
  let ?s = "ff_iterate ''S'' ''T'' 1 (ff_build_graph ex_line)"
  from ff_flow_conservation [OF ex_line_int refl, of 1] obtain F where
    F: "ff_flow_val ?s = PyInt F"
    and mid: "\<forall>x. x \<noteq> ''S'' \<and> x \<noteq> ''T'' \<longrightarrow> inflow (ff_graph ?s) x = outflow (ff_graph ?s) x"
    and src: "outflow (ff_graph ?s) ''S'' - inflow (ff_graph ?s) ''S'' = of_int F"
    and snk: "inflow (ff_graph ?s) ''T'' - outflow (ff_graph ?s) ''T'' = of_int F"
    by blast
  have v: "ff_flow_val ?s = PyInt 1" unfolding ex_line_after by simp
  with F have F1: "F = 1" by simp
  have a: "inflow (ff_graph ?s) ''A'' = outflow (ff_graph ?s) ''A''"
    using mid by simp
  have o: "outflow (ff_graph ?s) ''A'' = 1" unfolding ex_line_after by (simp add: outflow_def)
  show ?thesis using v a o src snk F1 ex_line_int by simp
qed

text \<open>
  C3 as the spec words it (for every built graph) does not hold with float capacities,
  where every addition rounds. On \<open>ex_float\<close> three calls of \<^verbatim>\<open>step()\<close> complete, with
  the bottlenecks 0.3, 0.2 and 0.1. The running total is \<open>(0.3 + 0.2) + 0.1\<close>, the
  double 0.6. The arc \<open>S \<rightarrow> A\<close> carries \<open>0.3 + 0.1\<close>, the double 0.4, and the arc
  \<open>S \<rightarrow> B\<close> carries 0.2; the sum of these two doubles is not the double 0.6, so the
  net flow out of \<^verbatim>\<open>'S'\<close> differs from the running total. At the node \<open>A\<close> the flow
  entering is the double 0.4 and the flow leaving is the sum of the doubles 0.3 and
  0.1, which is not a double.
\<close>

theorem ff_flow_conservation_counterexample:
  "snd (ff_step ''S'' ''T'' (ff_iterate ''S'' ''T'' 2 (ff_build_graph ex_float))) =
     Returned (Some [''S'', ''A'', ''R1'', ''R2'', ''R3'', ''T''], PyFloat (of_ratio 1 10)) \<and>
   ff_flow_val (ff_iterate ''S'' ''T'' 3 (ff_build_graph ex_float)) = PyFloat (of_ratio 6 10) \<and>
   map_of (ff_graph (ff_iterate ''S'' ''T'' 3 (ff_build_graph ex_float))) (''S'', ''A'') =
     Some \<lparr>capacity = PyInt 1, flow = PyFloat (of_ratio 4 10)\<rparr> \<and>
   map_of (ff_graph (ff_iterate ''S'' ''T'' 3 (ff_build_graph ex_float))) (''S'', ''B'') =
     Some \<lparr>capacity = PyInt 1, flow = PyFloat (of_ratio 2 10)\<rparr> \<and>
   outflow (ff_graph (ff_iterate ''S'' ''T'' 3 (ff_build_graph ex_float))) ''S''
     - inflow (ff_graph (ff_iterate ''S'' ''T'' 3 (ff_build_graph ex_float))) ''S''
     \<noteq> value_of (ff_flow_val (ff_iterate ''S'' ''T'' 3 (ff_build_graph ex_float))) \<and>
   inflow (ff_graph (ff_iterate ''S'' ''T'' 3 (ff_build_graph ex_float))) ''A''
     \<noteq> outflow (ff_graph (ff_iterate ''S'' ''T'' 3 (ff_build_graph ex_float))) ''A''"
  by code_simp

section \<open>Capacity bounds\<close>

lemma inv_bounds:
  assumes "inv g" "(k, d) \<in> set g"
  shows "\<exists>c f. capacity d = PyInt c \<and> flow d = PyInt f \<and> 0 \<le> f \<and>
           (0 \<le> c \<longrightarrow> f \<le> c) \<and> (c < 0 \<longrightarrow> f = 0)"
proof -
  from assms have "flows_ok g" by (simp add: inv_def)
  from flows_ok_member [OF this assms(2)] obtain c f where
    "d = \<lparr>capacity = PyInt c, flow = PyInt f\<rparr>" "0 \<le> f" "f \<le> max 0 c" by blast
  then show ?thesis by auto
qed

text \<open>
  C4. For an edge list whose capacities are all integers, after any number of calls of
  \<^verbatim>\<open>step\<close> of either stepper on the built graph (the scaling builder returns for
  such a list) every flow field is an integer that is at least 0, at most the capacity
  where the capacity is not negative, and 0 where it is negative (so an arc declared
  with a negative capacity has its flow above its capacity). The next call never
  takes the decrementing branch of the augmentation.
\<close>

theorem flow_within_capacity:
  assumes "int_capacities es"
    and "g = ff_graph (ff_iterate src snk j (ff_build_graph es)) \<or>
         (\<exists>c. cs_build_graph es = Some c \<and> g = cs_graph (cs_iterate src snk j c))"
  shows "(\<forall>(k, d) \<in> set g. \<exists>c f. capacity d = PyInt c \<and> flow d = PyInt f \<and> 0 \<le> f \<and>
            (0 \<le> c \<longrightarrow> f \<le> c) \<and> (c < 0 \<longrightarrow> f = 0)) \<and>
         ff_reverse_pushes src snk (ff_iterate src snk j (ff_build_graph es)) = 0 \<and>
         (\<exists>c. cs_build_graph es = Some c \<and> cs_reverse_pushes src snk (cs_iterate src snk j c) = 0)"
proof -
  have "inv g"
    using assms(2) ff_iterate_inv [OF assms(1)] cs_iterate_inv [OF assms(1)] by blast
  then have "\<forall>(k, d) \<in> set g. \<exists>c f. capacity d = PyInt c \<and> flow d = PyInt f \<and> 0 \<le> f \<and>
            (0 \<le> c \<longrightarrow> f \<le> c) \<and> (c < 0 \<longrightarrow> f = 0)"
    using inv_bounds by blast
  moreover have "ff_reverse_pushes src snk (ff_iterate src snk j (ff_build_graph es)) = 0"
    using ff_step_inv [OF ff_iterate_inv [OF assms(1)]] by blast
  moreover have "\<exists>c. cs_build_graph es = Some c \<and>
      cs_reverse_pushes src snk (cs_iterate src snk j c) = 0"
  proof -
    from int_capacities_build [OF assms(1)] obtain c where c: "cs_build_graph es = Some c" by blast
    from cs_step_inv [OF cs_iterate_inv [OF assms(1) c]]
    have "cs_reverse_pushes src snk (cs_iterate src snk j c) = 0" by blast
    with c show ?thesis by blast
  qed
  ultimately show ?thesis by blast
qed

lemma ex_line_cs_build:
  "cs_build_graph ex_line = Some \<lparr>cs_graph = ff_graph (ff_build_graph ex_line), cs_delta = 2\<rparr>"
  by code_simp

theorem flow_within_capacity_witness:
  "int_capacities ex_line \<and>
   ((''S'', ''A''), \<lparr>capacity = PyInt 2, flow = PyInt 1\<rparr>)
      \<in> set (ff_graph (ff_iterate ''S'' ''T'' 1 (ff_build_graph ex_line))) \<and>
   ff_reverse_pushes ''S'' ''T'' (ff_iterate ''S'' ''T'' 1 (ff_build_graph ex_line)) = 0 \<and>
   cs_reverse_pushes ''S'' ''T''
     (cs_iterate ''S'' ''T'' 1 \<lparr>cs_graph = ff_graph (ff_build_graph ex_line), cs_delta = 2\<rparr>) = 0"
proof -
  have m: "((''S'', ''A''), \<lparr>capacity = PyInt 2, flow = PyInt 1\<rparr>)
      \<in> set (ff_graph (ff_iterate ''S'' ''T'' 1 (ff_build_graph ex_line)))"
    unfolding ex_line_after by simp
  from flow_within_capacity [OF ex_line_int disjI1 [OF refl], of "''S''" "''T''" 1] m ex_line_int
  show ?thesis by (simp add: ex_line_cs_build)
qed

text \<open>
  C4 as the spec words it does not hold on a graph with an arc of negative capacity:
  after one call of \<^verbatim>\<open>step()\<close> on \<open>ex_negative\<close> the arc \<open>A \<rightarrow> B\<close> has flow 0 and
  capacity \<open>- 1\<close>, and \<open>0 \<le> - 1\<close> is false. Nor does it hold with float capacities:
  on \<open>ex_rounding\<close> the second call of \<^verbatim>\<open>step()\<close> finds the path \<open>S, A, C, D, T\<close> with
  the bottleneck 0.6000000000000001; on the arc \<open>S \<rightarrow> A\<close> the test
  \<open>0.9 \<ge> 0.3 + 0.6000000000000001\<close> is false, the decrementing branch runs, and the
  reverse arc \<open>A \<rightarrow> S\<close> is left with the flow \<open>- 0.6000000000000001\<close>.
\<close>

theorem flow_within_capacity_counterexample:
  "map_of (ff_graph (ff_iterate ''S'' ''T'' 1 (ff_build_graph ex_negative))) (''A'', ''B'')
     = Some \<lparr>capacity = PyInt (- 1), flow = PyInt 0\<rparr> \<and>
   \<not> num_le (PyInt 0) (PyInt (- 1)) \<and>
   snd (ff_step ''S'' ''T'' (ff_iterate ''S'' ''T'' 1 (ff_build_graph ex_rounding))) =
     Returned (Some [''S'', ''A'', ''C'', ''D'', ''T''], PyFloat (Dyadic 1351079888211149 (- 51))) \<and>
   ff_reverse_pushes ''S'' ''T'' (ff_iterate ''S'' ''T'' 1 (ff_build_graph ex_rounding)) = 1 \<and>
   map_of (ff_graph (ff_iterate ''S'' ''T'' 2 (ff_build_graph ex_rounding))) (''A'', ''S'')
     = Some \<lparr>capacity = PyInt 0, flow = PyFloat (Dyadic (- 1351079888211149) (- 51))\<rparr> \<and>
   \<not> num_le (PyInt 0) (PyFloat (Dyadic (- 1351079888211149) (- 51)))"
  by code_simp

section \<open>Phases of the scaling stepper\<close>

text \<open>
  C5. With delta at least 1 and no path at threshold delta, \<^verbatim>\<open>step\<close> halves delta and
  returns the empty path, 0 and the reducing message, whatever the new delta is. From
  delta at least 2 the new delta is at least 1. From delta 1 the new delta is 0, the
  same call still returns the reducing message, and the call after it returns the
  terminal signal.
\<close>

theorem no_path_halves_delta:
  assumes "1 \<le> cs_delta s"
    and "residual_where (\<lambda>residual. num_le (PyInt (cs_delta s)) residual) (cs_graph s) = Inr R"
    and "shortest_path R src snk = Inl NetworkXNoPath"
  shows "cs_step src snk s =
           (s\<lparr>cs_delta := cs_delta s div 2\<rparr>,
            Returned (Some [], PyInt 0,
              ''No path at Delta='' @ str_int (cs_delta s) @ ''. Reducing Delta to ''
                @ str_int (cs_delta s div 2))) \<and>
         (2 \<le> cs_delta s \<longrightarrow> 1 \<le> cs_delta s div 2) \<and>
         (cs_delta s = 1 \<longrightarrow> cs_delta s div 2 < 1 \<and>
            cs_step src snk (s\<lparr>cs_delta := cs_delta s div 2\<rparr>) =
              (s\<lparr>cs_delta := cs_delta s div 2\<rparr>, Returned (None, PyInt 0, ''Algorithm Complete'')))"
proof (intro conjI impI)
  show "cs_step src snk s =
           (s\<lparr>cs_delta := cs_delta s div 2\<rparr>,
            Returned (Some [], PyInt 0,
              ''No path at Delta='' @ str_int (cs_delta s) @ ''. Reducing Delta to ''
                @ str_int (cs_delta s div 2)))"
    using assms by (simp add: cs_step_def)
  show "1 \<le> cs_delta s div 2" if "2 \<le> cs_delta s" using that by simp
  show "cs_delta s div 2 < 1" if "cs_delta s = 1" using that by simp
  show "cs_step src snk (s\<lparr>cs_delta := cs_delta s div 2\<rparr>) =
          (s\<lparr>cs_delta := cs_delta s div 2\<rparr>, Returned (None, PyInt 0, ''Algorithm Complete''))"
    if "cs_delta s = 1" using that by (simp add: cs_step_def)
qed

lemma ex_gap2_no_path:
  "cs_build_graph ex_gap2 = Some ex_gap2_built \<and>
   cs_delta ex_gap2_built = 2 \<and>
   residual_where (\<lambda>residual. num_le (PyInt 2) residual) (cs_graph ex_gap2_built)
     = Inr ex_gap2_residual \<and>
   shortest_path ex_gap2_residual ''S'' ''T'' = Inl NetworkXNoPath \<and>
   cs_delta (cs_iterate ''S'' ''T'' 1 ex_gap2_built) = 1 \<and>
   residual_where (\<lambda>residual. num_le (PyInt 1) residual)
       (cs_graph (cs_iterate ''S'' ''T'' 1 ex_gap2_built)) = Inr ex_gap2_residual"
  by code_simp

theorem no_path_halves_delta_witness:
  "cs_build_graph ex_gap2 = Some ex_gap2_built \<and>
   cs_delta (fst (cs_step ''S'' ''T'' ex_gap2_built)) = 1 \<and>
   snd (cs_step ''S'' ''T'' ex_gap2_built) =
     Returned (Some [], PyInt 0, ''No path at Delta=2. Reducing Delta to 1'') \<and>
   cs_delta (fst (cs_step ''S'' ''T'' (cs_iterate ''S'' ''T'' 1 ex_gap2_built))) = 0 \<and>
   snd (cs_step ''S'' ''T'' (cs_iterate ''S'' ''T'' 1 ex_gap2_built)) =
     Returned (Some [], PyInt 0, ''No path at Delta=1. Reducing Delta to 0'') \<and>
   snd (cs_step ''S'' ''T'' (cs_iterate ''S'' ''T'' 2 ex_gap2_built)) =
     Returned (None, PyInt 0, ''Algorithm Complete'')"
proof -
  let ?s0 = "ex_gap2_built"
  let ?s1 = "cs_iterate ''S'' ''T'' 1 ?s0"
  have d0: "1 \<le> cs_delta ?s0" and d1: "1 \<le> cs_delta ?s1"
    using ex_gap2_no_path by simp_all
  have r0: "residual_where (\<lambda>residual. num_le (PyInt (cs_delta ?s0)) residual) (cs_graph ?s0)
      = Inr ex_gap2_residual"
    using ex_gap2_no_path by simp
  have r1: "residual_where (\<lambda>residual. num_le (PyInt (cs_delta ?s1)) residual) (cs_graph ?s1)
      = Inr ex_gap2_residual"
    using ex_gap2_no_path by simp
  have np: "shortest_path ex_gap2_residual ''S'' ''T'' = Inl NetworkXNoPath"
    using ex_gap2_no_path by simp
  have s2: "cs_iterate ''S'' ''T'' 2 ?s0 = fst (cs_step ''S'' ''T'' ?s1)"
    by (simp add: numeral_2_eq_2)
  have e0: "str_int 2 = ''2''" "str_int 1 = ''1''" "str_int 0 = ''0''" by code_simp+
  from no_path_halves_delta [OF d0 r0 np] no_path_halves_delta [OF d1 r1 np] ex_gap2_no_path
  show ?thesis unfolding s2 by (simp add: e0)
qed

text \<open>
  C5 as the spec words it (the terminal signal is returned on the call that brings
  delta below 1) does not hold: on \<open>ex_gap\<close>, with delta 1 and no path, that call
  returns the empty path and the reducing message.
\<close>

theorem no_path_halves_delta_counterexample:
  "cs_build_graph ex_gap =
     Some \<lparr>cs_graph = ff_graph (ff_build_graph ex_gap), cs_delta = 1\<rparr> \<and>
   residual_where (\<lambda>residual. num_le (PyInt 1) residual) (ff_graph (ff_build_graph ex_gap))
     = Inr [((''S'', ''A''), PyInt 1), ((''B'', ''T''), PyInt 1)] \<and>
   shortest_path [((''S'', ''A''), PyInt 1), ((''B'', ''T''), PyInt 1)] ''S'' ''T''
     = Inl NetworkXNoPath \<and>
   cs_step ''S'' ''T'' \<lparr>cs_graph = ff_graph (ff_build_graph ex_gap), cs_delta = 1\<rparr> =
    (\<lparr>cs_graph = [((''S'', ''A''), \<lparr>capacity = PyInt 1, flow = PyInt 0\<rparr>),
                  ((''A'', ''S''), \<lparr>capacity = PyInt 0, flow = PyInt 0\<rparr>),
                  ((''B'', ''T''), \<lparr>capacity = PyInt 1, flow = PyInt 0\<rparr>),
                  ((''T'', ''B''), \<lparr>capacity = PyInt 0, flow = PyInt 0\<rparr>)],
       cs_delta = 0\<rparr>, Returned (Some [], PyInt 0, ''No path at Delta=1. Reducing Delta to 0''))"
  by code_simp

section \<open>Terminal states\<close>

text \<open>
  C6. A call of the plain stepper that returns the terminal signal \<open>(None, 0)\<close> leaves
  the state as it was, and so does every later call, which returns the same signal. A
  call of the scaling stepper that returns \<open>None\<close> as its path returns
  \<open>(None, 0, ''Algorithm Complete'')\<close> with delta below 1, leaves graph and delta as
  they were, and so does every later call.
\<close>

theorem terminal_step_idempotent:
  "(ff_step src snk s = (s', Returned (None, b)) \<longrightarrow>
      s' = s \<and> b = PyInt 0 \<and> (\<forall>j. ff_iterate src snk j s' = s') \<and>
      ff_step src snk s' = (s', Returned (None, PyInt 0))) \<and>
   (cs_step src snk c = (c', Returned (None, b', msg)) \<longrightarrow>
      c' = c \<and> cs_delta c < 1 \<and> b' = PyInt 0 \<and> msg = ''Algorithm Complete'' \<and>
      (\<forall>j. cs_iterate src snk j c' = c') \<and>
      cs_step src snk c' = (c', Returned (None, PyInt 0, ''Algorithm Complete'')))"
proof (intro conjI impI)
  assume a: "ff_step src snk s = (s', Returned (None, b))"
  then show s: "s' = s" and "b = PyInt 0"
    by (auto simp: ff_step_def Let_def
        split: sum.splits exn.splits prod.splits option.splits)
  with a show again: "ff_step src snk s' = (s', Returned (None, PyInt 0))" by simp
  show "\<forall>j. ff_iterate src snk j s' = s'"
  proof
    fix j show "ff_iterate src snk j s' = s'"
      by (induction j) (simp_all add: again)
  qed
next
  assume a: "cs_step src snk c = (c', Returned (None, b', msg))"
  then show c: "c' = c" and d: "cs_delta c < 1" and "b' = PyInt 0" and "msg = ''Algorithm Complete''"
    by (auto simp: cs_step_def Let_def
        split: if_splits sum.splits exn.splits prod.splits option.splits)
  with a show again: "cs_step src snk c' = (c', Returned (None, PyInt 0, ''Algorithm Complete''))"
    by simp
  show "\<forall>j. cs_iterate src snk j c' = c'"
  proof
    fix j show "cs_iterate src snk j c' = c'"
      by (induction j) (simp_all add: again)
  qed
qed

lemma ex_gap_terminal:
  "ff_step ''S'' ''T'' (ff_build_graph ex_gap) = (ff_build_graph ex_gap, Returned (None, PyInt 0)) \<and>
   cs_build_graph ex_gap = Some ex_gap_built \<and>
   cs_step ''S'' ''T'' (cs_iterate ''S'' ''T'' 1 ex_gap_built) =
     (cs_iterate ''S'' ''T'' 1 ex_gap_built, Returned (None, PyInt 0, ''Algorithm Complete''))"
  by code_simp

theorem terminal_step_idempotent_witness:
  "ff_step ''S'' ''T'' (ff_build_graph ex_gap) = (ff_build_graph ex_gap, Returned (None, PyInt 0)) \<and>
   ff_iterate ''S'' ''T'' 5 (ff_build_graph ex_gap) = ff_build_graph ex_gap \<and>
   cs_build_graph ex_gap = Some ex_gap_built \<and>
   cs_step ''S'' ''T'' (cs_iterate ''S'' ''T'' 1 ex_gap_built) =
     (cs_iterate ''S'' ''T'' 1 ex_gap_built, Returned (None, PyInt 0, ''Algorithm Complete'')) \<and>
   cs_iterate ''S'' ''T'' 5 (cs_iterate ''S'' ''T'' 1 ex_gap_built) =
     cs_iterate ''S'' ''T'' 1 ex_gap_built"
  using ex_gap_terminal
    terminal_step_idempotent [of "''S''" "''T''" "ff_build_graph ex_gap" "ff_build_graph ex_gap"
      "PyInt 0" "cs_iterate ''S'' ''T'' 1 ex_gap_built"
      "cs_iterate ''S'' ''T'' 1 ex_gap_built" "PyInt 0" "''Algorithm Complete''"]
  by blast

section \<open>The terminal signal of the plain stepper\<close>

text \<open>
  C1. On the single arc \<open>S \<rightarrow> T\<close> of capacity 1 the first call of \<^verbatim>\<open>step()\<close> saturates
  the arc. The residual graph is then empty, so no augmenting path exists and the
  source has no arc of positive residual; the second call raises \<^verbatim>\<open>NodeNotFound\<close>
  instead of returning \<open>(None, 0)\<close>. The scaling stepper does the same.
\<close>

theorem ff_step_raises_instead_of_terminal:
  "ff_step ''S'' ''T'' (ff_build_graph ex_single) =
     (\<lparr>ff_graph = [((''S'', ''T''), \<lparr>capacity = PyInt 1, flow = PyInt 1\<rparr>),
                   ((''T'', ''S''), \<lparr>capacity = PyInt 0, flow = PyInt 0\<rparr>)],
        ff_flow_val = PyInt 1\<rparr>, Returned (Some [''S'', ''T''], PyInt 1)) \<and>
   get_residual_graph (ff_graph (ff_iterate ''S'' ''T'' 1 (ff_build_graph ex_single))) = Inr [] \<and>
   ff_step ''S'' ''T'' (ff_iterate ''S'' ''T'' 1 (ff_build_graph ex_single)) =
     (ff_iterate ''S'' ''T'' 1 (ff_build_graph ex_single), Raised NodeNotFound) \<and>
   cs_build_graph ex_single =
     Some \<lparr>cs_graph = ff_graph (ff_build_graph ex_single), cs_delta = 1\<rparr> \<and>
   snd (cs_step ''S'' ''T''
     (cs_iterate ''S'' ''T'' 1 \<lparr>cs_graph = ff_graph (ff_build_graph ex_single), cs_delta = 1\<rparr>))
     = Raised NodeNotFound"
  by code_simp

text \<open>
  When source and sink are both end points of arcs of the residual graph and no walk
  leads from one to the other, the terminal signal is returned.
\<close>

lemma ff_step_no_path:
  assumes "get_residual_graph (ff_graph s) = Inr R"
    and "source \<in> set (nodes_of R)" and "sink \<in> set (nodes_of R)"
    and "\<not> (\<exists>p. p \<noteq> [] \<and> hd p = source \<and> last p = sink \<and> walk R p)"
  shows "ff_step source sink s = (s, Returned (None, PyInt 0))"
proof (cases rule: shortest_path_cases [of R source sink])
  case 1
  with assms(2,3) show ?thesis by (simp add: shortest_path_def split: option.splits)
next
  case 2
  then show ?thesis by (simp add: ff_step_def assms(1))
next
  case (3 p)
  from shortest_path_sound [OF this] assms(4) show ?thesis by blast
qed

section \<open>Total flow of the two steppers\<close>

lemma ex_detour_plain_trace:
  "map (\<lambda>j. snd (ff_step ''S'' ''T'' (ff_iterate ''S'' ''T'' j (ff_build_graph ex_detour))))
     [0, 1, 2, 3] =
   [Returned (Some [''S'', ''A'', ''B'', ''T''], PyInt 1),
    Returned (Some [''S'', ''X1'', ''X2'', ''B'', ''T''], PyInt 1),
    Returned (Some [''S'', ''A'', ''Y1'', ''Y2'', ''Y3'', ''T''], PyInt 1),
    Returned (None, PyInt 0)]"
  by code_simp

lemma ex_detour_scaling_trace:
  "cs_build_graph ex_detour = Some ex_detour_built \<and>
   map (\<lambda>j. snd (cs_step ''S'' ''T'' (cs_iterate ''S'' ''T'' j ex_detour_built)))
     [0, 1, 2, 3, 4] =
   [Returned (Some [''S'', ''X1'', ''X2'', ''B'', ''T''], PyInt 2, ''Augmented at Delta=2''),
    Returned (Some [''S'', ''A'', ''Y1'', ''Y2'', ''Y3'', ''T''], PyInt 2, ''Augmented at Delta=2''),
    Returned (Some [], PyInt 0, ''No path at Delta=2. Reducing Delta to 1''),
    Returned (Some [], PyInt 0, ''No path at Delta=1. Reducing Delta to 0''),
    Returned (None, PyInt 0, ''Algorithm Complete'')]"
  by code_simp

text \<open>
  C2. On \<open>ex_detour\<close>, whose capacities are all non-negative, the plain stepper run
  until it reports no path has pushed 3 units (sum of bottlenecks, running total and
  flow out of \<^verbatim>\<open>'S'\<close> agree), and the scaling stepper run until it reports completion
  has pushed 4.
\<close>

theorem stepper_totals_differ:
  "list_all (\<lambda>e. num_le (PyInt 0) (edge_capacity e)) ex_detour \<and>
   ff_total 10 ex_detour = Some (Inr (PyInt 3, PyInt 3, 3)) \<and>
   cs_total 10 ex_detour = Some (Inr (PyInt 4, 4))"
  by code_simp

section \<open>Crew pairing: the graph and the result\<close>

lemma map_of_insert_arcs:
  "map_of (insert_arcs ks G) k = (if k \<in> set ks then Some 1 else map_of G k)"
  unfolding insert_arcs_def
  by (induction ks arbitrary: G) (simp_all add: add_edge_def update_conv')

lemma insert_arcs_append: "insert_arcs (ks @ ks') G = insert_arcs ks' (insert_arcs ks G)"
  by (simp add: insert_arcs_def)

lemma fold_add_terminals: "fold add_terminals fl G = insert_arcs (terminal_arcs fl) G"
  by (induction fl arbitrary: G)
     (simp_all add: terminal_arcs_def insert_arcs_def add_terminals_def)

lemma fold_add_pair: "fold (\<lambda>f2 G. add_pair f1 f2 G) fl G = insert_arcs (pair_arcs f1 fl) G"
  by (induction fl arbitrary: G)
     (simp_all add: pair_arcs_def insert_arcs_def add_pair_def)

lemma fold_add_pairs:
  "fold (\<lambda>f1 G. fold (\<lambda>f2 G. add_pair f1 f2 G) fl G) gl G =
     insert_arcs (concat (map (\<lambda>f1. pair_arcs f1 fl) gl)) G"
  by (induction gl arbitrary: G) (simp_all add: fold_add_pair insert_arcs_append, simp add: insert_arcs_def)

lemma airline_graph_arcs:
  "airline_graph fl =
     insert_arcs (terminal_arcs fl @ concat (map (\<lambda>f1. pair_arcs f1 fl) fl)) []"
  by (simp add: airline_graph_def fold_add_pairs fold_add_terminals insert_arcs_append)

lemma in_out_not_terminal: "(a @ ''_in'', b @ ''_out'') \<notin> set (terminal_arcs fl)"
  by (auto simp: terminal_arcs_def)

lemma in_pair_arcs:
  "((a @ ''_in'', b @ ''_out'') \<in> set (pair_arcs f1 fl)) =
     (flight_id f1 = a \<and> (\<exists>f2 \<in> set fl. flight_id f2 = b \<and> f1 \<noteq> f2 \<and>
        flight_end f1 \<le> flight_start f2))"
  by (auto simp: pair_arcs_def in_node_def out_node_def)

lemma airline_graph_pair:
  "map_of (airline_graph fl) (a @ ''_in'', b @ ''_out'') =
     (if \<exists>f1 \<in> set fl. \<exists>f2 \<in> set fl. flight_id f1 = a \<and> flight_id f2 = b \<and> f1 \<noteq> f2 \<and>
           flight_end f1 \<le> flight_start f2
      then Some 1 else None)"
  by (simp add: airline_graph_arcs map_of_insert_arcs in_out_not_terminal in_pair_arcs)

lemma nodes_of_key: "map_of G (a, b) = Some c \<Longrightarrow> a \<in> set (nodes_of G) \<and> b \<in> set (nodes_of G)"
  by (force simp: nodes_of_def dest: map_of_SomeD)

lemma airline_graph_terminals:
  assumes "fl \<noteq> []"
  shows "''S'' \<in> set (nodes_of (airline_graph fl)) \<and> ''T'' \<in> set (nodes_of (airline_graph fl))"
proof -
  from assms obtain f where f: "f \<in> set fl" by (cases fl) auto
  then have "(''S'', in_node f) \<in> set (terminal_arcs fl)" "(out_node f, ''T'') \<in> set (terminal_arcs fl)"
    by (auto simp: terminal_arcs_def)
  then have a: "map_of (airline_graph fl) (''S'', in_node f) = Some 1"
    and b: "map_of (airline_graph fl) (out_node f, ''T'') = Some 1"
    by (simp_all add: airline_graph_arcs map_of_insert_arcs)
  from nodes_of_key [OF a] nodes_of_key [OF b] show ?thesis by simp
qed

lemma ex_flights_result:
  "solve_airline ex_flights = Inr (2, ''Flights: 3, Compatible Pairs Matched: 1'')"
  by code_simp

text \<open>
  C10. For a non-empty flight list \<^verbatim>\<open>solve_airline\<close> returns the number of flights
  minus the maximum flow of the graph it builds, and that graph has the arc from
  \<open>a_in\<close> to \<open>b_out\<close>, with capacity 1, exactly when two different flight records with
  the ids \<open>a\<close> and \<open>b\<close> satisfy \<open>end \<le> start\<close>; for the three flights of the example
  the result is 2. A flight is never paired with itself, also when its end is not
  after its start, and for the empty list the library raises.
\<close>

theorem solve_airline_min_units:
  assumes "flights \<noteq> []"
  shows "(\<exists>flow_val msg. maximum_flow (airline_graph flights) ''S'' ''T'' = Inr flow_val \<and>
            solve_airline flights = Inr (int (length flights) - flow_val, msg)) \<and>
         (\<forall>a b. map_of (airline_graph flights) (a @ ''_in'', b @ ''_out'') =
            (if \<exists>f1 \<in> set flights. \<exists>f2 \<in> set flights. flight_id f1 = a \<and> flight_id f2 = b \<and>
                  f1 \<noteq> f2 \<and> flight_end f1 \<le> flight_start f2
             then Some 1 else None)) \<and>
         solve_airline ex_flights = Inr (2, ''Flights: 3, Compatible Pairs Matched: 1'')"
proof -
  have st: "''S'' \<noteq> ''T''" by simp
  from airline_graph_terminals [OF assms] st
  obtain flow_val where mf: "maximum_flow (airline_graph flights) ''S'' ''T'' = Inr flow_val"
    by (simp add: maximum_flow_def)
  then have "\<exists>msg. solve_airline flights = Inr (int (length flights) - flow_val, msg)"
    by (simp add: solve_airline_def Let_def)
  with mf show ?thesis using airline_graph_pair by (simp add: ex_flights_result)
qed

theorem solve_airline_min_units_witness:
  "solve_airline ex_flights = Inr (2, ''Flights: 3, Compatible Pairs Matched: 1'') \<and>
   maximum_flow (airline_graph ex_flights) ''S'' ''T'' = Inr 1 \<and>
   map_of (airline_graph ex_flights) (''A1_in'', ''A2_out'') = Some 1 \<and>
   map_of (airline_graph ex_flights) (''B1_in'', ''A2_out'') = None"
proof -
  have ne: "ex_flights \<noteq> []" by (simp add: ex_flights_def)
  have mf: "maximum_flow (airline_graph ex_flights) ''S'' ''T'' = Inr 1" by code_simp
  from solve_airline_min_units [OF ne]
  have arcs: "\<forall>a b. map_of (airline_graph ex_flights) (a @ ''_in'', b @ ''_out'') =
            (if \<exists>f1 \<in> set ex_flights. \<exists>f2 \<in> set ex_flights. flight_id f1 = a \<and> flight_id f2 = b \<and>
                  f1 \<noteq> f2 \<and> flight_end f1 \<le> flight_start f2
             then Some 1 else None)" by blast
  have "map_of (airline_graph ex_flights) (''A1'' @ ''_in'', ''A2'' @ ''_out'') = Some 1"
    unfolding arcs [rule_format] by (simp add: ex_flights_def)
  moreover have "map_of (airline_graph ex_flights) (''B1'' @ ''_in'', ''A2'' @ ''_out'') = None"
    unfolding arcs [rule_format] by (simp add: ex_flights_def)
  ultimately show ?thesis using ex_flights_result mf by simp
qed

text \<open>
  C10 as the spec words it does not hold for the empty list, where the call raises, and
  for a flight whose end is not after its start: the graph has no arc from its
  \<open>_in\<close> node to its \<open>_out\<close> node, and the result is 1.
\<close>

theorem solve_airline_counterexample:
  "solve_airline [] = Inl NetworkXError \<and>
   flight_end \<lparr>flight_id = ''A1'', flight_start = 5, flight_end = 5\<rparr>
     \<le> flight_start \<lparr>flight_id = ''A1'', flight_start = 5, flight_end = 5\<rparr> \<and>
   map_of (airline_graph [\<lparr>flight_id = ''A1'', flight_start = 5, flight_end = 5\<rparr>])
     (''A1_in'', ''A1_out'') = None \<and>
   solve_airline [\<lparr>flight_id = ''A1'', flight_start = 5, flight_end = 5\<rparr>] =
     Inr (1, ''Flights: 1, Compatible Pairs Matched: 0'')"
  by code_simp

end
